theory Spec2Isabelle
  imports Complex_Main "HOL-Library.Multiset"
begin

section \<open>Strings, runes and the Unicode tables\<close>

text \<open>
  A Go string is modelled as the list of its code points (valid UTF-8 text), a rune as a
  natural number. \<open>len(s)\<close> counts bytes of the UTF-8 encoding, \<open>utf8.RuneCountInString\<close>
  counts runes; both are kept apart. \<open>float64\<close> scores are modelled as exact rationals.
\<close>

type_synonym rune = nat
type_synonym gostring = "rune list"

definition str :: "string \<Rightarrow> gostring" where
  "str s = map of_char s"

text \<open>
  The Unicode character tables of the Go standard library are fixed on the ASCII range and
  taken as a parameter beyond it: category L, category N, category Nd, category Lu,
  White_Space, and the lower-case mapping.
\<close>

record unicode =
  extLetter :: "rune \<Rightarrow> bool"
  extNumber :: "rune \<Rightarrow> bool"
  extDigit :: "rune \<Rightarrow> bool"
  extUpper :: "rune \<Rightarrow> bool"
  extSpace :: "rune \<Rightarrow> bool"
  extLower :: "rune \<Rightarrow> rune"

definition ascii :: unicode where
  "ascii = \<lparr> extLetter = (\<lambda>r. False), extNumber = (\<lambda>r. False), extDigit = (\<lambda>r. False),
             extUpper = (\<lambda>r. False), extSpace = (\<lambda>r. False), extLower = (\<lambda>r. r) \<rparr>"

definition isUpper :: "unicode \<Rightarrow> rune \<Rightarrow> bool" where
  "isUpper U r = (if r < 128 then 65 \<le> r \<and> r \<le> 90 else extUpper U r)"

definition isLetter :: "unicode \<Rightarrow> rune \<Rightarrow> bool" where
  "isLetter U r = (if r < 128 then (65 \<le> r \<and> r \<le> 90) \<or> (97 \<le> r \<and> r \<le> 122) else extLetter U r)"

definition isNumber_rune :: "unicode \<Rightarrow> rune \<Rightarrow> bool" where
  "isNumber_rune U r = (if r < 128 then 48 \<le> r \<and> r \<le> 57 else extNumber U r)"

definition isDigit :: "unicode \<Rightarrow> rune \<Rightarrow> bool" where
  "isDigit U r = (if r < 128 then 48 \<le> r \<and> r \<le> 57 else extDigit U r)"

definition isSpace :: "unicode \<Rightarrow> rune \<Rightarrow> bool" where
  "isSpace U r = (if r < 128 then r = 9 \<or> r = 10 \<or> r = 11 \<or> r = 12 \<or> r = 13 \<or> r = 32
                  else extSpace U r)"

definition toLower_rune :: "unicode \<Rightarrow> rune \<Rightarrow> rune" where
  "toLower_rune U r = (if r < 128 then (if 65 \<le> r \<and> r \<le> 90 then r + 32 else r) else extLower U r)"

text \<open>The class \<open>\s\<close> of Go regular expressions is ASCII only: tab, newline, form feed, carriage return, space.\<close>

definition reSpace :: "rune \<Rightarrow> bool" where
  "reSpace r = (r = 9 \<or> r = 10 \<or> r = 12 \<or> r = 13 \<or> r = 32)"

definition ToLower :: "unicode \<Rightarrow> gostring \<Rightarrow> gostring" where
  "ToLower U s = map (toLower_rune U) s"

definition TrimSpace :: "unicode \<Rightarrow> gostring \<Rightarrow> gostring" where
  "TrimSpace U s = rev (dropWhile (isSpace U) (rev (dropWhile (isSpace U) s)))"

definition utf8_len :: "rune \<Rightarrow> nat" where
  "utf8_len r = (if r < 128 then 1 else if r < 2048 then 2 else if r < 65536 then 3 else 4)"

definition byteLen :: "gostring \<Rightarrow> nat" where
  "byteLen s = sum_list (map utf8_len s)"

definition RuneCountInString :: "gostring \<Rightarrow> nat" where
  "RuneCountInString s = length s"

fun HasPrefix :: "gostring \<Rightarrow> gostring \<Rightarrow> bool" where
  "HasPrefix s [] = True"
| "HasPrefix [] (p # ps) = False"
| "HasPrefix (c # cs) (p # ps) = (c = p \<and> HasPrefix cs ps)"

fun Contains :: "gostring \<Rightarrow> gostring \<Rightarrow> bool" where
  "Contains [] sub = (sub = [])"
| "Contains (c # cs) sub = (HasPrefix (c # cs) sub \<or> Contains cs sub)"

text \<open>Byte-wise comparison of strings; on valid UTF-8 it is the lexicographic order of the code points.\<close>

fun strLess :: "gostring \<Rightarrow> gostring \<Rightarrow> bool" where
  "strLess [] [] = False"
| "strLess [] (y # ys) = True"
| "strLess (x # xs) [] = False"
| "strLess (x # xs) (y # ys) = (x < y \<or> (x = y \<and> strLess xs ys))"

fun Join :: "gostring list \<Rightarrow> gostring \<Rightarrow> gostring" where
  "Join [] sep = []"
| "Join [x] sep = x"
| "Join (x # y # ys) sep = x @ sep @ Join (y # ys) sep"

text \<open>\<open>strings.Split(s, "\n")\<close>: the pieces between newlines, always at least one.\<close>

fun splitLines :: "gostring \<Rightarrow> gostring \<Rightarrow> gostring list" where
  "splitLines cur [] = [rev cur]"
| "splitLines cur (c # cs) = (if c = 10 then rev cur # splitLines [] cs else splitLines (c # cur) cs)"

text \<open>\<open>strings.Fields\<close>: the maximal runs of runes that are not white space.\<close>

fun Fields_acc :: "unicode \<Rightarrow> gostring \<Rightarrow> gostring \<Rightarrow> gostring list" where
  "Fields_acc U cur [] = (if cur = [] then [] else [rev cur])"
| "Fields_acc U cur (c # cs) =
     (if isSpace U c then (if cur = [] then [] else [rev cur]) @ Fields_acc U [] cs
      else Fields_acc U (c # cur) cs)"

definition Fields :: "unicode \<Rightarrow> gostring \<Rightarrow> gostring list" where
  "Fields U s = Fields_acc U [] s"

section \<open>Package search: the paragraph index\<close>

subsection \<open>Regular expressions of the package\<close>

text \<open>\<open>wordRE = \p{L}+\p{N}*\<close>, \<open>FindAllString(s, -1)\<close>: scanning left to right, a match starts at a
  letter and takes the longest run of letters, then the longest run of numbers.\<close>

fun wordRE_scan :: "unicode \<Rightarrow> nat \<Rightarrow> gostring \<Rightarrow> gostring \<Rightarrow> gostring list" where
  "wordRE_scan U st cur [] = (if st = 0 then [] else [rev cur])"
| "wordRE_scan U st cur (c # cs) =
     (if st = 0 then
        (if isLetter U c then wordRE_scan U 1 [c] cs else wordRE_scan U 0 [] cs)
      else if st = 1 then
        (if isLetter U c then wordRE_scan U 1 (c # cur) cs
         else if isNumber_rune U c then wordRE_scan U 2 (c # cur) cs
         else rev cur # wordRE_scan U 0 [] cs)
      else
        (if isNumber_rune U c then wordRE_scan U 2 (c # cur) cs
         else if isLetter U c then rev cur # wordRE_scan U 1 [c] cs
         else rev cur # wordRE_scan U 0 [] cs))"

definition wordRE_FindAllString :: "unicode \<Rightarrow> gostring \<Rightarrow> gostring list" where
  "wordRE_FindAllString U s = wordRE_scan U 0 [] s"

text \<open>\<open>paraSplitRE = \n\s*\n\<close>. After a newline, \<open>\s*\n\<close> matches when the run of \<open>\s\<close> that follows
  holds a newline, and (greedy) ends at the last newline of that run.\<close>

fun afterLastNewline :: "gostring \<Rightarrow> gostring option" where
  "afterLastNewline [] = None"
| "afterLastNewline (c # cs) =
     (if reSpace c then
        (case afterLastNewline cs of
           Some r \<Rightarrow> Some r
         | None \<Rightarrow> (if c = 10 then Some cs else None))
      else None)"

function paraSplit :: "gostring \<Rightarrow> gostring \<Rightarrow> gostring list" where
  "paraSplit cur [] = [rev cur]"
| "paraSplit cur (c # cs) =
     (if c = 10 then
        (case afterLastNewline cs of
           Some r \<Rightarrow> rev cur # paraSplit [] r
         | None \<Rightarrow> paraSplit (c # cur) cs)
      else paraSplit (c # cur) cs)"
  by pat_completeness auto
termination
proof (relation "measure (\<lambda>(cur, s). length s)")
  show "wf (measure (\<lambda>(cur, s). length s))" by simp
next
  fix cur :: gostring and c :: rune and cs r :: gostring
  assume "afterLastNewline cs = Some r"
  moreover have "afterLastNewline xs = Some y \<Longrightarrow> length y \<le> length xs" for xs y
    by (induction xs arbitrary: y) (auto split: if_splits option.splits intro: le_SucI)
  ultimately have "length r \<le> length cs" by blast
  then show "(([], r), (cur, c # cs)) \<in> measure (\<lambda>(cur, s). length s)" by simp
qed simp_all

definition splitParasFromBytes :: "unicode \<Rightarrow> gostring \<Rightarrow> gostring list" where
  "splitParasFromBytes U raw =
     filter (\<lambda>t. t \<noteq> []) (map (TrimSpace U) (paraSplit [] raw))"

subsection \<open>Configuration and options\<close>

text \<open>A Go map used as a set (\<open>map[string]struct{}\<close>) is modelled as the duplicate-free list of
  its keys; the nil map is the empty list. Nothing below depends on the order of the keys.\<close>

record config =
  minParagraphRunes :: int
  stopwords :: "gostring list"
  maxDocs :: int

definition defaultConfig :: config where
  "defaultConfig = \<lparr> minParagraphRunes = 40, stopwords = [], maxDocs = 0 \<rparr>"

datatype Option = WithMinParagraphRunes int | WithStopwords "gostring list" | WithMaxDocs int

fun applyOption :: "unicode \<Rightarrow> Option \<Rightarrow> config \<Rightarrow> config" where
  "applyOption U (WithMinParagraphRunes n) c = (if n \<ge> 0 then c\<lparr>minParagraphRunes := n\<rparr> else c)"
| "applyOption U (WithStopwords ws) c =
     (let m = remdups (filter (\<lambda>w. w \<noteq> []) (map (\<lambda>w. ToLower U (TrimSpace U w)) ws))
      in if length m > 0 then c\<lparr>stopwords := m\<rparr> else c)"
| "applyOption U (WithMaxDocs n) c = (if n > 0 then c\<lparr>maxDocs := n\<rparr> else c)"

definition applyOptions :: "unicode \<Rightarrow> Option list \<Rightarrow> config \<Rightarrow> config" where
  "applyOptions U opts c = fold (applyOption U) opts c"

subsection \<open>Documents and the index\<close>

record doc =
  doc_text :: gostring
  doc_tokens :: "gostring list"
  doc_tLen :: int

record index =
  cfg :: config
  docs :: "doc list"

record Result =
  Snippet :: gostring
  Score :: rat

definition tokenize :: "unicode \<Rightarrow> gostring \<Rightarrow> gostring list \<Rightarrow> gostring list" where
  "tokenize U s stop =
     (let ws = wordRE_FindAllString U (ToLower U s)
      in if length ws = 0 then []
         else remdups (filter (\<lambda>w. w \<noteq> [] \<and> w \<notin> set stop) ws))"

definition overlap :: "gostring list \<Rightarrow> gostring list \<Rightarrow> int" where
  "overlap a b =
     (if length a = 0 \<or> length b = 0 then 0
      else if length a > length b then int (length (filter (\<lambda>k. k \<in> set a) b))
      else int (length (filter (\<lambda>k. k \<in> set b) a)))"

fun normalizeWhitespace_loop :: "bool \<Rightarrow> gostring \<Rightarrow> gostring" where
  "normalizeWhitespace_loop prevSpace [] = []"
| "normalizeWhitespace_loop prevSpace (r # rs) =
     (if r = 32 \<or> r = 9 \<or> r = 13 then
        (if \<not> prevSpace then 32 # normalizeWhitespace_loop True rs
         else normalizeWhitespace_loop prevSpace rs)
      else r # normalizeWhitespace_loop False rs)"

definition normalizeWhitespace :: "gostring \<Rightarrow> gostring" where
  "normalizeWhitespace s = normalizeWhitespace_loop False s"

text \<open>The loop of \<open>buildIndex\<close>: \<open>continue\<close> goes on with the rest, \<open>break\<close> returns the documents.\<close>

fun buildIndex_loop :: "unicode \<Rightarrow> config \<Rightarrow> gostring list \<Rightarrow> doc list \<Rightarrow> int \<Rightarrow> doc list" where
  "buildIndex_loop U c [] ds cnt = ds"
| "buildIndex_loop U c (raw # rest) ds cnt =
     (let t = TrimSpace U (normalizeWhitespace raw) in
      if t = [] then buildIndex_loop U c rest ds cnt
      else if minParagraphRunes c > 0 \<and> int (RuneCountInString t) < minParagraphRunes c
        then buildIndex_loop U c rest ds cnt
      else let toks = tokenize U t (stopwords c) in
        if length toks = 0 then buildIndex_loop U c rest ds cnt
        else let ds' = ds @ [\<lparr> doc_text = t, doc_tokens = toks, doc_tLen = int (length toks) \<rparr>];
                 cnt' = cnt + 1
             in if maxDocs c > 0 \<and> cnt' \<ge> maxDocs c then ds'
                else buildIndex_loop U c rest ds' cnt')"

definition buildIndex :: "unicode \<Rightarrow> gostring list \<Rightarrow> config \<Rightarrow> index" where
  "buildIndex U paragraphs c = \<lparr> cfg = c, docs = buildIndex_loop U c paragraphs [] 0 \<rparr>"

definition NewIndexFromStrings :: "unicode \<Rightarrow> gostring list \<Rightarrow> Option list \<Rightarrow> index" where
  "NewIndexFromStrings U paragraphs opts = buildIndex U paragraphs (applyOptions U opts defaultConfig)"

text \<open>Reading is the only effect of the constructors. A reader is modelled by what
  \<open>io.ReadAll\<close> returns on it, the file system by what \<open>os.ReadFile\<close> returns on a path: the
  bytes read so far and an error (\<open>None\<close> is nil). The constructors return a pair of an Index
  handle (\<open>None\<close> is the nil interface value) and an error.\<close>

datatype ioerror = IOError gostring

definition NewIndexFromReader ::
  "unicode \<Rightarrow> (gostring \<times> ioerror option) \<Rightarrow> Option list \<Rightarrow> index option \<times> ioerror option" where
  "NewIndexFromReader U r opts =
     (let c = applyOptions U opts defaultConfig in
      case r of
        (all, Some err) \<Rightarrow> (Some \<lparr> cfg = c, docs = [] \<rparr>, Some err)
      | (all, None) \<Rightarrow> (Some (buildIndex U (splitParasFromBytes U all) c), None))"

definition NewIndexFromMarkdown ::
  "unicode \<Rightarrow> (gostring \<Rightarrow> gostring \<times> ioerror option) \<Rightarrow> gostring \<Rightarrow> Option list
     \<Rightarrow> index option \<times> ioerror option" where
  "NewIndexFromMarkdown U readFile path opts =
     (case readFile path of
        (b, Some err) \<Rightarrow> (Some \<lparr> cfg = defaultConfig, docs = [] \<rparr>, Some err)
      | (b, None) \<Rightarrow> NewIndexFromReader U (b, None) opts)"

subsection \<open>TopK\<close>

record scored =
  snippet :: gostring
  score :: rat
  lenRunes :: int

text \<open>Go's \<open>int\<close> is 64 bits wide on the platforms the service is built for; \<open>k*4\<close> wraps around.
  A negative capacity makes \<open>make\<close> panic.\<close>

definition int64 :: "int \<Rightarrow> int" where
  "int64 x = (x + 2 ^ 63) mod 2 ^ 64 - 2 ^ 63"

datatype panic = MakesliceCapOutOfRange

fun scoreDocs :: "gostring list \<Rightarrow> int \<Rightarrow> doc list \<Rightarrow> scored list" where
  "scoreDocs qTokens qLen [] = []"
| "scoreDocs qTokens qLen (d # ds) =
     (let over = overlap qTokens (doc_tokens d) in
      if over = 0 then scoreDocs qTokens qLen ds
      else let union = (of_int (qLen + doc_tLen d - over) :: rat) in
        if union \<le> 0 then scoreDocs qTokens qLen ds
        else let sc = of_int over / union in
          if sc \<le> 0 then scoreDocs qTokens qLen ds
          else \<lparr> snippet = doc_text d, score = sc, lenRunes = int (RuneCountInString (doc_text d)) \<rparr>
                 # scoreDocs qTokens qLen ds)"

definition lessScored :: "scored \<Rightarrow> scored \<Rightarrow> bool" where
  "lessScored a b =
     (if score a \<noteq> score b then score a > score b
      else if lenRunes a \<noteq> lenRunes b then lenRunes a < lenRunes b
      else strLess (snippet a) (snippet b))"

text \<open>\<open>sort.SliceStable\<close>: the stable sort by \<open>less\<close>, here as a stable insertion sort (every
  stable sort gives the same list).\<close>

fun insertStable :: "('a \<Rightarrow> 'a \<Rightarrow> bool) \<Rightarrow> 'a \<Rightarrow> 'a list \<Rightarrow> 'a list" where
  "insertStable lt x [] = [x]"
| "insertStable lt x (y # ys) = (if lt y x then y # insertStable lt x ys else x # y # ys)"

definition sortSliceStable :: "('a \<Rightarrow> 'a \<Rightarrow> bool) \<Rightarrow> 'a list \<Rightarrow> 'a list" where
  "sortSliceStable lt xs = foldr (insertStable lt) xs []"

text \<open>The result of \<open>TopK\<close>: a panic, the nil slice (\<open>None\<close>) or a slice of results.\<close>

definition TopK :: "unicode \<Rightarrow> index \<Rightarrow> gostring \<Rightarrow> int \<Rightarrow> panic + Result list option" where
  "TopK U i q k0 =
     (if length (docs i) = 0 then Inr None
      else if TrimSpace U q = [] then Inr None
      else let k = (if k0 \<le> 0 then 3 else k0);
               qTokens = tokenize U q (stopwords (cfg i))
           in if length qTokens = 0 then Inr None
              else let qLen = int (length qTokens) in
                if min (int64 (k * 4)) (int (length (docs i))) < 0 then Inl MakesliceCapOutOfRange
                else let buf = scoreDocs qTokens qLen (docs i) in
                  if length buf = 0 then Inr None
                  else let sorted = sortSliceStable lessScored buf;
                           k' = (if k > int (length sorted) then int (length sorted) else k)
                       in Inr (Some (map (\<lambda>b. \<lparr> Snippet = snippet b, Score = score b \<rparr>)
                                         (take (nat k') sorted))))"


section \<open>Package services: retrieval with precision filtering and re-ranking\<close>

subsection \<open>Regular expressions of the package\<close>

text \<open>\<open>qwordRE\<close> and \<open>alnumRE\<close> are both \<open>[\p{L}\p{N}]+\<close>: the maximal runs of letters and numbers.\<close>

definition alnum :: "unicode \<Rightarrow> rune \<Rightarrow> bool" where
  "alnum U c = (isLetter U c \<or> isNumber_rune U c)"

fun alnumRE_scan :: "unicode \<Rightarrow> gostring \<Rightarrow> gostring \<Rightarrow> gostring list" where
  "alnumRE_scan U cur [] = (if cur = [] then [] else [rev cur])"
| "alnumRE_scan U cur (c # cs) =
     (if alnum U c then alnumRE_scan U (c # cur) cs
      else (if cur = [] then [] else [rev cur]) @ alnumRE_scan U [] cs)"

definition alnumRE_FindAllString :: "unicode \<Rightarrow> gostring \<Rightarrow> gostring list" where
  "alnumRE_FindAllString U s = alnumRE_scan U [] s"

definition qwordRE_FindAllString :: "unicode \<Rightarrow> gostring \<Rightarrow> gostring list" where
  "qwordRE_FindAllString U s = alnumRE_scan U [] s"

text \<open>\<open>quotedPhraseRE\<close> has four alternatives, each an opening quote, a non-empty run of runes
  other than the closing quote, and the closing quote: \<open>"..."\<close>, U+2018...U+2019, U+201C...U+201D
  and \<open>'...'\<close>. \<open>FindAllStringSubmatch\<close> gives one non-empty group per match; the list below holds
  these groups in the order of the matches.\<close>

fun closingQuote :: "rune \<Rightarrow> rune option" where
  "closingQuote c =
     (if c = 34 then Some 34
      else if c = 8216 then Some 8217
      else if c = 8220 then Some 8221
      else if c = 39 then Some 39
      else None)"

function quotedPhraseRE_groups :: "gostring \<Rightarrow> gostring list" where
  "quotedPhraseRE_groups [] = []"
| "quotedPhraseRE_groups (c # cs) =
     (case closingQuote c of
        None \<Rightarrow> quotedPhraseRE_groups cs
      | Some e \<Rightarrow>
          (let body = takeWhile (\<lambda>x. x \<noteq> e) cs; rest = dropWhile (\<lambda>x. x \<noteq> e) cs
           in if body \<noteq> [] \<and> rest \<noteq> [] then body # quotedPhraseRE_groups (tl rest)
              else quotedPhraseRE_groups cs))"
  by pat_completeness auto
termination
proof (relation "measure length")
  fix c :: rune and cs :: gostring and e :: rune and body rest :: gostring
  assume "rest = dropWhile (\<lambda>x. x \<noteq> e) cs"
  then have "length (tl rest) \<le> length cs"
    using length_dropWhile_le[of "\<lambda>x. x \<noteq> e" cs] by simp
  then show "(tl rest, c # cs) \<in> measure length" by simp
qed simp_all

text \<open>A small regular-expression matcher (Brzozowski derivatives) for the two patterns used with
  \<open>MatchString\<close>; both are anchored by \<open>^\<close> and \<open>$\<close>, so the whole string has to match.\<close>

datatype re = Eps | Cls "rune \<Rightarrow> bool" | Seq re re | Alt re re | Star re

fun nullable :: "re \<Rightarrow> bool" where
  "nullable Eps = True"
| "nullable (Cls P) = False"
| "nullable (Seq r s) = (nullable r \<and> nullable s)"
| "nullable (Alt r s) = (nullable r \<or> nullable s)"
| "nullable (Star r) = True"

fun deriv :: "rune \<Rightarrow> re \<Rightarrow> re" where
  "deriv c Eps = Cls (\<lambda>x. False)"
| "deriv c (Cls P) = (if P c then Eps else Cls (\<lambda>x. False))"
| "deriv c (Seq r s) = (if nullable r then Alt (Seq (deriv c r) s) (deriv c s) else Seq (deriv c r) s)"
| "deriv c (Alt r s) = Alt (deriv c r) (deriv c s)"
| "deriv c (Star r) = Seq (deriv c r) (Star r)"

definition MatchString :: "re \<Rightarrow> gostring \<Rightarrow> bool" where
  "MatchString r s = nullable (fold deriv s r)"

definition chr :: "rune \<Rightarrow> re" where
  "chr c = Cls (\<lambda>x. x = c)"

definition opt :: "re \<Rightarrow> re" where
  "opt r = Alt r Eps"

definition plus :: "re \<Rightarrow> re" where
  "plus r = Seq r (Star r)"

definition seqs :: "re list \<Rightarrow> re" where
  "seqs rs = foldr Seq rs Eps"

text \<open>\<open>mdTableRow = ^\s*\|.*\|\s*$\<close> (the dot does not match a newline).\<close>

definition mdTableRow :: re where
  "mdTableRow = seqs [Star (Cls reSpace), chr 124, Star (Cls (\<lambda>x. x \<noteq> 10)), chr 124, Star (Cls reSpace)]"

text \<open>\<open>mdSepRow = ^\s*\|?\s*:?-{3,}:?\s*(\|\s*:?-{3,}:?\s*)+\|?\s*$\<close>.\<close>

definition mdSepCell :: re where
  "mdSepCell = seqs [opt (chr 58), chr 45, chr 45, chr 45, Star (chr 45), opt (chr 58), Star (Cls reSpace)]"

definition mdSepRow :: re where
  "mdSepRow = seqs [Star (Cls reSpace), opt (chr 124), Star (Cls reSpace), mdSepCell,
                    plus (seqs [chr 124, Star (Cls reSpace), mdSepCell]),
                    opt (chr 124), Star (Cls reSpace)]"

subsection \<open>Word tables\<close>

definition decline :: gostring where
  "decline = str ''I can'' @ [8217] @ str ''t answer that from the provided data.''"

definition qStop :: "gostring list" where
  "qStop = map str
     [''the'', ''a'', ''an'', ''and'', ''or'', ''of'', ''to'', ''in'',
      ''is'', ''are'', ''for'', ''on'', ''with'', ''by'', ''from'',
      ''at'', ''as'', ''that'', ''this'', ''it'', ''be'', ''was'', ''were'',
      ''how'', ''much'', ''more'', ''likely'', ''do'', ''does'', ''what'', ''which'',
      ''new'', ''brands'', ''products'', ''find'', ''out'', ''about'']"

definition genericContentDrop :: "gostring list" where
  "genericContentDrop = map str
     [''interested'', ''interest'', ''interests'',
      ''percentage'', ''percent'', ''share'',
      ''likely'', ''likelihood'', ''compared'', ''comparison'', ''average'', ''overall'',
      ''people'', ''person'',
      ''new'', ''brands'', ''products'', ''find'', ''out'', ''about'']"

subsection \<open>Helpers\<close>

definition simplifyQuery :: "unicode \<Rightarrow> gostring \<Rightarrow> gostring" where
  "simplifyQuery U s =
     (let toks = qwordRE_FindAllString U (ToLower U s) in
      if length toks = 0 then []
      else let keep = filter (\<lambda>t. t \<notin> set qStop) toks in
        if length keep = 0 then Join toks (str '' '') else Join keep (str '' ''))"

fun splitRune :: "rune \<Rightarrow> gostring \<Rightarrow> gostring \<Rightarrow> gostring list" where
  "splitRune sep cur [] = [rev cur]"
| "splitRune sep cur (c # cs) = (if c = sep then rev cur # splitRune sep [] cs else splitRune sep (c # cur) cs)"

definition TrimPrefix_bar :: "gostring \<Rightarrow> gostring" where
  "TrimPrefix_bar s = (case s of [] \<Rightarrow> [] | c # cs \<Rightarrow> if c = 124 then cs else s)"

definition TrimSuffix_bar :: "gostring \<Rightarrow> gostring" where
  "TrimSuffix_bar s = (if s \<noteq> [] \<and> last s = 124 then butlast s else s)"

definition tableRowCells :: "unicode \<Rightarrow> gostring \<Rightarrow> gostring" where
  "tableRowCells U l =
     (let row = TrimSuffix_bar (TrimPrefix_bar (TrimSpace U l));
          cells = map (TrimSpace U) (splitRune 124 [] row)
      in Join cells (str '' ''))"

text \<open>The loop of \<open>stripMarkdownTablesToLines\<close> over the lines; \<open>inBody\<close> is the inner loop that
  consumes the body rows of a table after its header and separator.\<close>

fun stripLines :: "unicode \<Rightarrow> bool \<Rightarrow> gostring list \<Rightarrow> gostring list" where
  "stripLines U inBody [] = []"
| "stripLines U inBody (l # rest) =
     (let line = TrimSpace U l in
      if inBody \<and> MatchString mdTableRow line then
        (let cleaned = tableRowCells U l
         in (if cleaned \<noteq> [] then [cleaned] else []) @ stripLines U True rest)
      else
        (case rest of
           n # rest' \<Rightarrow>
             if MatchString mdTableRow line \<and> MatchString mdSepRow (TrimSpace U n)
             then stripLines U True rest'
             else (if line \<noteq> [] then [line] else []) @ stripLines U False rest
         | [] \<Rightarrow> (if line \<noteq> [] then [line] else [])))"

definition stripMarkdownTablesToLines :: "unicode \<Rightarrow> gostring \<Rightarrow> gostring" where
  "stripMarkdownTablesToLines U s =
     (if s = [] then [] else Join (stripLines U False (splitRune 10 [] s)) [10])"

fun replaceCRLF :: "gostring \<Rightarrow> gostring" where
  "replaceCRLF [] = []"
| "replaceCRLF [c] = [c]"
| "replaceCRLF (c # d # cs) = (if c = 13 \<and> d = 10 then 10 # replaceCRLF cs else c # replaceCRLF (d # cs))"

definition collapseWhitespaceLines :: "unicode \<Rightarrow> gostring \<Rightarrow> gostring" where
  "collapseWhitespaceLines U s =
     (if s = [] then []
      else Join (map (\<lambda>parts. Join parts (str '' ''))
                  (filter (\<lambda>parts. length parts \<noteq> 0)
                     (map (Fields U) (splitRune 10 [] (replaceCRLF s))))) [10])"

fun isNumber_loop :: "unicode \<Rightarrow> bool \<Rightarrow> gostring \<Rightarrow> bool" where
  "isNumber_loop U hasDigit [] = hasDigit"
| "isNumber_loop U hasDigit (r # rs) =
     (if isDigit U r then isNumber_loop U True rs
      else if \<not> (isLetter U r \<or> r = 46 \<or> r = 44 \<or> r = 37) then False
      else isNumber_loop U hasDigit rs)"

definition isNumber :: "unicode \<Rightarrow> gostring \<Rightarrow> bool" where
  "isNumber U s = isNumber_loop U False s"

definition isCapitalized :: "unicode \<Rightarrow> gostring \<Rightarrow> bool" where
  "isCapitalized U s = (case s of [] \<Rightarrow> False | r # rs \<Rightarrow> isUpper U r)"

text \<open>\<open>strings.EqualFold(a, "Gen")\<close>: under simple case folding the letters g, e and n are
  equivalent to their capitals only.\<close>

definition EqualFold_Gen :: "gostring \<Rightarrow> bool" where
  "EqualFold_Gen a =
     (case a of
        [x, y, z] \<Rightarrow> (x = 71 \<or> x = 103) \<and> (y = 69 \<or> y = 101) \<and> (z = 78 \<or> z = 110)
      | _ \<Rightarrow> False)"

subsection \<open>Query terms\<close>

record queryTerms =
  allTokens :: "gostring list"
  entities :: "gostring list"
  entitySlice :: "gostring list"

definition extractQueryTerms :: "unicode \<Rightarrow> gostring \<Rightarrow> queryTerms" where
  "extractQueryTerms U prompt =
     (let p = TrimSpace U prompt;
          lower = ToLower U p;
          tokens = remdups (filter (\<lambda>t. t \<notin> set qStop) (alnumRE_FindAllString U lower));
          quoted = map (ToLower U) (filter (\<lambda>ph. ph \<noteq> []) (map (TrimSpace U) (quotedPhraseRE_groups p)));
          words = map (ToLower U)
                    (filter (\<lambda>raw. ToLower U raw \<notin> set qStop \<and>
                                   (isNumber U raw \<or> isCapitalized U raw \<or> byteLen (ToLower U raw) \<ge> 6))
                       (alnumRE_FindAllString U p));
          ents = remdups (quoted @ words)
      in \<lparr> allTokens = tokens, entities = ents, entitySlice = ents \<rparr>)"

definition overlapRelevance :: "unicode \<Rightarrow> gostring \<Rightarrow> queryTerms \<Rightarrow> rat" where
  "overlapRelevance U snip q =
     (if length (allTokens q) = 0 then 0
      else let snippetLower = ToLower U snip;
               sTokens = remdups (alnumRE_FindAllString U snippetLower);
               inter = int (length (filter (\<lambda>t. t \<in> set sTokens) (allTokens q)));
               union = int (length sTokens) + int (length (allTokens q)) - inter
           in if union = 0 then 0
              else let j = of_int inter / of_int union;
                       boost = fold (\<lambda>e b. if e = [] then b
                                            else if Contains snippetLower e then b + 6 / 100 else b)
                                 (entitySlice q) (0 :: rat);
                       boost' = (if boost > 24 / 100 then 24 / 100 else boost);
                       sc = j + boost'
                   in if sc > 1 then 1 else sc)"

subsection \<open>The parts of retrieve\<close>

type_synonym Index = "gostring \<Rightarrow> int \<Rightarrow> Result list"

definition fetch :: "unicode \<Rightarrow> Index \<Rightarrow> gostring \<Rightarrow> Result list" where
  "fetch U idx prompt =
     (let results = idx prompt 10 in
      if length results = 0 then
        (let simplified = simplifyQuery U prompt in
         if simplified \<noteq> [] \<and> simplified \<noteq> prompt then idx simplified 10 else results)
      else results)"

definition contentTerms :: "unicode \<Rightarrow> gostring \<Rightarrow> gostring list" where
  "contentTerms U prompt =
     (let lowerPrompt = ToLower U prompt;
          base = filter (\<lambda>tok. tok \<notin> set qStop \<and> byteLen tok \<ge> 5 \<and> tok \<notin> set genericContentDrop)
                   (qwordRE_FindAllString U lowerPrompt);
          quoted = filter (\<lambda>p. byteLen p \<ge> 5 \<and> p \<notin> set genericContentDrop)
                     (map (\<lambda>m. ToLower U (TrimSpace U m)) (quotedPhraseRE_groups prompt));
          caps = map (ToLower U) (filter (isCapitalized U) (alnumRE_FindAllString U prompt))
      in filter (\<lambda>t. t \<notin> set caps) (remdups (base @ quoted)))"

definition containsAny :: "gostring \<Rightarrow> gostring list \<Rightarrow> bool" where
  "containsAny sLower terms = (\<exists>t\<in>set terms. t \<noteq> [] \<and> Contains sLower t)"

definition addPhrase :: "unicode \<Rightarrow> gostring list \<Rightarrow> gostring list \<Rightarrow> gostring list" where
  "addPhrase U parts acc =
     (let ph = ToLower U (Join parts (str '' ''))
      in if TrimSpace U ph \<noteq> [] then acc @ [ph] else acc)"

fun compoundCaps :: "unicode \<Rightarrow> gostring list \<Rightarrow> gostring list \<Rightarrow> gostring list" where
  "compoundCaps U (a # b # rest) acc =
     (let acc1 = (if EqualFold_Gen a \<and> byteLen b = 1 \<and> isCapitalized U b then addPhrase U [a, b] acc else acc);
          acc2 = (if isCapitalized U a \<and> isCapitalized U b then
                    (let acc' = addPhrase U [a, b] acc1 in
                     case rest of
                       c # rest' \<Rightarrow> if isCapitalized U c then addPhrase U [a, b, c] acc' else acc'
                     | [] \<Rightarrow> acc')
                  else acc1)
      in compoundCaps U (b # rest) acc2)"
| "compoundCaps U toks acc = acc"

definition strongEntities :: "unicode \<Rightarrow> gostring \<Rightarrow> queryTerms \<Rightarrow> gostring list" where
  "strongEntities U prompt q =
     (let long = filter (\<lambda>e. isNumber U e \<or> byteLen e \<ge> 5) (entities q);
          toks = alnumRE_FindAllString U prompt;
          compound = compoundCaps U toks [];
          proper = map (ToLower U) (filter (\<lambda>w. isCapitalized U w \<and> RuneCountInString w \<ge> 4) toks)
      in remdups (long @ compound @ proper))"

definition countStrongHits :: "unicode \<Rightarrow> gostring list \<Rightarrow> gostring \<Rightarrow> gostring list" where
  "countStrongHits U strong snip =
     (if length strong = 0 then []
      else let sn = ToLower U snip in filter (\<lambda>e. e \<noteq> [] \<and> Contains sn e) strong)"

definition requiredHits :: "gostring list \<Rightarrow> nat" where
  "requiredHits strong = (let n = length strong in if n \<ge> 2 then 2 else if n = 1 then 1 else 0)"

definition maxScore :: "Result list \<Rightarrow> rat" where
  "maxScore results =
     (let m = fold (\<lambda>r m. if Score r > m then Score r else m) results 0
      in if m = 0 then 1 else m)"

record cand =
  cand_text :: gostring
  indexScore :: rat
  overlapRel :: rat
  combined :: rat
  strongEntHit :: "gostring list"

definition strictFloor :: rat where "strictFloor = 20 / 100"
definition lenientFloor :: rat where "lenientFloor = 10 / 100"

definition contentGate :: "unicode \<Rightarrow> gostring list \<Rightarrow> gostring \<Rightarrow> bool" where
  "contentGate U terms clean = (\<not> (length terms > 0 \<and> \<not> containsAny (ToLower U clean) terms))"

definition strongGate :: "nat \<Rightarrow> nat \<Rightarrow> rat \<Rightarrow> gostring \<Rightarrow> bool" where
  "strongGate required hitCount ov clean =
     (if required \<ge> 2 then \<not> hitCount < 2
      else if required = 1 then \<not> (hitCount < 1 \<and> ov < strictFloor)
      else \<not> (ov < lenientFloor \<and> RuneCountInString clean < 12))"

definition cleanSnippet :: "unicode \<Rightarrow> Result \<Rightarrow> gostring" where
  "cleanSnippet U r = stripMarkdownTablesToLines U (TrimSpace U (Snippet r))"

text \<open>One round of the candidate loop: \<open>None\<close> is \<open>continue\<close>, \<open>Some\<close> the candidate appended.\<close>

definition candidate ::
  "unicode \<Rightarrow> queryTerms \<Rightarrow> gostring list \<Rightarrow> gostring list \<Rightarrow> rat \<Rightarrow> Result \<Rightarrow> cand option" where
  "candidate U q terms strong mx r =
     (let clean = cleanSnippet U r in
      if clean = [] then None
      else let ov = overlapRelevance U clean q;
               ns = Score r / mx;
               comb = (1 / 2) * ns + (1 / 2) * ov
           in if \<not> contentGate U terms clean then None
              else let hitSet = countStrongHits U strong clean;
                       hitCount = length hitSet
                   in if \<not> strongGate (requiredHits strong) hitCount ov clean then None
                      else Some \<lparr> cand_text = clean, indexScore = Score r, overlapRel = ov,
                                  combined = (if hitCount > requiredHits strong then comb + 3 / 100 else comb),
                                  strongEntHit = hitSet \<rparr>)"

definition survivors :: "unicode \<Rightarrow> gostring \<Rightarrow> Result list \<Rightarrow> cand list" where
  "survivors U prompt results =
     (let q = extractQueryTerms U prompt
      in List.map_filter (candidate U q (contentTerms U prompt) (strongEntities U prompt q) (maxScore results))
           results)"

definition threshold :: "rat \<Rightarrow> rat" where
  "threshold thr = (if thr \<le> 0 then 20 / 100 else thr)"

definition mergeSecond :: "cand list \<Rightarrow> bool" where
  "mergeSecond cands =
     (length cands > 1 \<and> combined (cands ! 1) \<ge> combined (cands ! 0) * (9 / 10) \<and>
      (\<forall>e\<in>set (strongEntHit (cands ! 0)). e \<in> set (strongEntHit (cands ! 1))))"


definition retrieve ::
  "unicode \<Rightarrow> (cand list \<Rightarrow> cand list) \<Rightarrow> Index option \<Rightarrow> rat \<Rightarrow> gostring \<Rightarrow> gostring \<times> rat option" where
  "retrieve U sortSlice Index_opt Threshold prompt =
     (case Index_opt of
        None \<Rightarrow> (decline, None)
      | Some idx \<Rightarrow>
          (let results = fetch U idx prompt in
           if length results = 0 then (decline, None)
           else let cands0 = survivors U prompt results in
             if length cands0 = 0 then (decline, None)
             else let cands = sortSlice cands0;
                      top = cands ! 0
                  in if indexScore top < threshold Threshold then (decline, None)
                     else let out = (if mergeSecond cands then cand_text top @ [10] @ cand_text (cands ! 1)
                                     else cand_text top)
                          in (collapseWhitespaceLines U out, Some (indexScore top))))"

text \<open>The index of the tests of the package: a table from queries to results, cut to \<open>k\<close>.\<close>

definition fakeIndex :: "(gostring \<times> Result list) list \<Rightarrow> Index" where
  "fakeIndex byQuery q k =
     (let rs = (case map_of byQuery q of None \<Rightarrow> [] | Some rs \<Rightarrow> rs)
      in if int (length rs) > k then take (nat k) rs else rs)"

text \<open>The insertion sort that \<open>sort.Slice\<close> runs on slices of at most twelve elements.\<close>

definition insertionSortCombined :: "cand list \<Rightarrow> cand list" where
  "insertionSortCombined xs = sortSliceStable (\<lambda>a b. combined a > combined b) xs"


section \<open>Notions of the specification\<close>

text \<open>The Jaccard similarity in the words of the specification: overlap over the size of the
  query token set plus the size of the document token set minus the overlap.\<close>

definition jaccard :: "gostring set \<Rightarrow> gostring set \<Rightarrow> rat" where
  "jaccard Q D = of_nat (card (Q \<inter> D)) / (of_nat (card Q) + of_nat (card D) - of_nat (card (Q \<inter> D)))"

text \<open>The order of the specification on results: score descending, then rune length of the
  snippet ascending, then the snippet text ascending.\<close>

definition ranksBefore :: "Result \<Rightarrow> Result \<Rightarrow> bool" where
  "ranksBefore a b \<longleftrightarrow>
     Score a > Score b \<or>
     (Score a = Score b \<and>
        (RuneCountInString (Snippet a) < RuneCountInString (Snippet b) \<or>
         (RuneCountInString (Snippet a) = RuneCountInString (Snippet b) \<and> strLess (Snippet a) (Snippet b))))"

text \<open>What the specification asks of a stored document.\<close>

definition doc_ok :: "unicode \<Rightarrow> config \<Rightarrow> gostring list \<Rightarrow> doc \<Rightarrow> bool" where
  "doc_ok U c paragraphs d \<longleftrightarrow>
     doc_tokens d \<noteq> [] \<and>
     doc_text d \<noteq> [] \<and>
     (\<exists>raw\<in>set paragraphs. doc_text d = TrimSpace U (normalizeWhitespace raw)) \<and>
     (minParagraphRunes c > 0 \<longrightarrow> minParagraphRunes c \<le> int (RuneCountInString (doc_text d))) \<and>
     doc_tokens d = tokenize U (doc_text d) (stopwords c) \<and>
     doc_tLen d = int (length (doc_tokens d))"

text \<open>A result passes the gates of a prompt when its cleaned snippet passes the content-term
  gate and the strong-entity gate.\<close>

definition passesGates :: "unicode \<Rightarrow> gostring \<Rightarrow> Result \<Rightarrow> bool" where
  "passesGates U prompt r =
     (let q = extractQueryTerms U prompt;
          strong = strongEntities U prompt q;
          clean = cleanSnippet U r
      in contentGate U (contentTerms U prompt) clean \<and>
         strongGate (requiredHits strong) (length (countStrongHits U strong clean))
           (overlapRelevance U clean q) clean)"

definition toResult :: "scored \<Rightarrow> Result" where
  "toResult b = \<lparr> Snippet = snippet b, Score = score b \<rparr>"


section \<open>Properties of the index\<close>

subsection \<open>Blank queries, empty indices and the default of k\<close>

lemma TopK_empty_index: "docs i = [] \<Longrightarrow> TopK U i q k = Inr None"
  by (simp add: TopK_def)

lemma TrimSpace_Nil_iff: "TrimSpace U q = [] \<longleftrightarrow> (\<forall>r\<in>set q. isSpace U r)"
proof -
  have "TrimSpace U q = [] \<longleftrightarrow> dropWhile (isSpace U) q = []"
  proof
    assume "TrimSpace U q = []"
    then have "\<forall>x\<in>set (dropWhile (isSpace U) q). isSpace U x"
      by (simp add: TrimSpace_def dropWhile_eq_Nil_conv)
    then show "dropWhile (isSpace U) q = []"
      by (metis hd_dropWhile hd_in_set)
  qed (auto simp: TrimSpace_def dest: set_dropWhileD)
  also have "\<dots> \<longleftrightarrow> (\<forall>r\<in>set q. isSpace U r)"
    by (rule dropWhile_eq_Nil_conv)
  finally show ?thesis .
qed

lemma int64_small: "0 \<le> x \<Longrightarrow> x < 2 ^ 63 \<Longrightarrow> int64 x = x"
  by (simp add: int64_def)

lemma TopK_no_panic:
  assumes "0 < k" "k < 2 ^ 61"
  shows "\<exists>res. TopK U i q k = Inr res"
proof -
  have "int64 (k * 4) = k * 4"
    using assms by (intro int64_small) auto
  then have "\<not> min (int64 (k * 4)) (int (length (docs i))) < 0"
    using assms by simp
  then show ?thesis
    unfolding TopK_def Let_def using assms by (simp del: min_less_iff_disj)
qed



lemma TopK_k3: "k \<le> 0 \<Longrightarrow> TopK U i q k = TopK U i q 3"
  by (simp add: TopK_def)

lemma TopK_length_le:
  assumes "TopK U i q k = Inr (Some rs)"
  shows "int (length rs) \<le> (if k \<le> 0 then 3 else k)"
  using assms
  by (auto simp: TopK_def Let_def split: if_splits)


text \<open>
  Claim C8. \<open>TopK\<close> returns nil whenever the index has no documents, or the query is blank
  (only white space), or the query tokenizes to no term; in particular \<open>TopK("", 5)\<close> is nil on
  every index. For every query, \<open>TopK\<close> with \<open>k \<le> 0\<close> behaves exactly as with \<open>k = 3\<close>: it
  returns (no panic) and gives at most 3 results.
\<close>

theorem TopK_nil_and_default_k:
  "(docs i = [] \<longrightarrow> TopK U i q k = Inr None) \<and>
   ((\<forall>r\<in>set q. isSpace U r) \<longrightarrow> TopK U i q k = Inr None) \<and>
   (tokenize U q (stopwords (cfg i)) = [] \<longrightarrow> TopK U i q k = Inr None) \<and>
   TopK U i [] 5 = Inr None \<and>
   (k \<le> 0 \<longrightarrow> TopK U i q k = TopK U i q 3 \<and>
      (\<exists>res. TopK U i q k = Inr res \<and> (\<forall>rs. res = Some rs \<longrightarrow> length rs \<le> 3)))"
proof (intro conjI impI)
  show "TopK U i q k = Inr None" if "docs i = []"
    using that by (simp add: TopK_def)
  show "TopK U i q k = Inr None" if "\<forall>r\<in>set q. isSpace U r"
    using that TrimSpace_Nil_iff[of U q] by (simp add: TopK_def)
  show "TopK U i q k = Inr None" if "tokenize U q (stopwords (cfg i)) = []"
    using that by (simp add: TopK_def Let_def)
  show "TopK U i [] 5 = Inr None"
    by (simp add: TopK_def TrimSpace_def)
  show "TopK U i q k = TopK U i q 3" if "k \<le> 0"
    using that by (rule TopK_k3)
  show "\<exists>res. TopK U i q k = Inr res \<and> (\<forall>rs. res = Some rs \<longrightarrow> length rs \<le> 3)" if "k \<le> 0"
  proof -
    obtain res where r: "TopK U i q 3 = Inr res"
      using TopK_no_panic[of 3 U i q] by auto
    have "length rs \<le> 3" if "res = Some rs" for rs
      using TopK_length_le[of U i q 3 rs] r that by simp
    with r that TopK_k3[of k U i q] \<open>k \<le> 0\<close> show ?thesis by simp
  qed
qed

theorem TopK_nil_and_default_k_witness:
  "docs \<lparr> cfg = defaultConfig, docs = [] \<rparr> = [] \<and>
   TopK ascii \<lparr> cfg = defaultConfig, docs = [] \<rparr> (str ''x'') 3 = Inr None \<and>
   list_all (isSpace ascii) (str ''   '') \<and>
   TopK ascii (NewIndexFromStrings ascii [str ''alpha beta'', str ''alpha beta gamma''] [WithMinParagraphRunes 0])
     (str ''   '') 2 = Inr None \<and>
   tokenize ascii (str ''alpha beta'')
     (stopwords (cfg (NewIndexFromStrings ascii [str ''alpha beta'']
        [WithStopwords [str ''alpha'', str ''beta''], WithMinParagraphRunes 0]))) = [] \<and>
   TopK ascii (NewIndexFromStrings ascii [str ''alpha beta'']
        [WithStopwords [str ''alpha'', str ''beta''], WithMinParagraphRunes 0]) (str ''alpha beta'') 2 = Inr None \<and>
   (0 :: int) \<le> 0 \<and>
   TopK ascii (NewIndexFromStrings ascii [str ''alpha beta'', str ''alpha beta gamma''] [WithMinParagraphRunes 0])
     (str ''alpha beta'') 0 =
   TopK ascii (NewIndexFromStrings ascii [str ''alpha beta'', str ''alpha beta gamma''] [WithMinParagraphRunes 0])
     (str ''alpha beta'') 3"
proof -
  let ?E = "\<lparr> cfg = defaultConfig, docs = [] \<rparr>"
  let ?A = "NewIndexFromStrings ascii [str ''alpha beta'', str ''alpha beta gamma''] [WithMinParagraphRunes 0]"
  let ?S = "NewIndexFromStrings ascii [str ''alpha beta''] [WithStopwords [str ''alpha'', str ''beta''], WithMinParagraphRunes 0]"
  have h1: "docs ?E = []" by simp
  have h2: "\<forall>r\<in>set (str ''   ''). isSpace ascii r" by (simp add: str_def isSpace_def)
  have h3: "tokenize ascii (str ''alpha beta'') (stopwords (cfg ?S)) = []" by code_simp
  have h4: "(0 :: int) \<le> 0" by simp
  have 1: "TopK ascii ?E (str ''x'') 3 = Inr None"
    using TopK_nil_and_default_k[of ?E ascii "str ''x''" 3, THEN conjunct1] h1 by (rule mp)
  have 2: "TopK ascii ?A (str ''   '') 2 = Inr None"
    using TopK_nil_and_default_k[of ?A ascii "str ''   ''" 2, THEN conjunct2, THEN conjunct1] h2 by (rule mp)
  have 3: "TopK ascii ?S (str ''alpha beta'') 2 = Inr None"
    using TopK_nil_and_default_k[of ?S ascii "str ''alpha beta''" 2, THEN conjunct2, THEN conjunct2, THEN conjunct1] h3
    by (rule mp)
  have "TopK ascii ?A (str ''alpha beta'') 0 = TopK ascii ?A (str ''alpha beta'') 3 \<and>
      (\<exists>res. TopK ascii ?A (str ''alpha beta'') 0 = Inr res \<and> (\<forall>rs. res = Some rs \<longrightarrow> length rs \<le> 3))"
    using TopK_nil_and_default_k[of ?A ascii "str ''alpha beta''" 0, THEN conjunct2, THEN conjunct2, THEN conjunct2, THEN conjunct2] h4
    by (rule mp)
  then have 4: "TopK ascii ?A (str ''alpha beta'') 0 = TopK ascii ?A (str ''alpha beta'') 3"
    by (rule conjunct1)
  have h2': "list_all (isSpace ascii) (str ''   '')"
    using h2 by (simp add: list_all_iff)
  show ?thesis
    by (intro conjI h1 1 h2' 2 h3 3 h4 4)
qed

subsection \<open>Construction\<close>


lemma buildIndex_loop_inv:
  assumes "\<forall>d\<in>set ds. doc_ok U c all d" "set ps \<subseteq> set all"
    and "cnt = int (length ds)" "maxDocs c > 0 \<longrightarrow> cnt < maxDocs c \<or> ps = []"
    and "maxDocs c > 0 \<longrightarrow> cnt \<le> maxDocs c"
  shows "(\<forall>d\<in>set (buildIndex_loop U c ps ds cnt). doc_ok U c all d) \<and>
         (maxDocs c > 0 \<longrightarrow> int (length (buildIndex_loop U c ps ds cnt)) \<le> maxDocs c)"
  using assms
proof (induction ps arbitrary: ds cnt)
  case Nil
  then show ?case by simp
next
  case (Cons raw rest)
  let ?t = "TrimSpace U (normalizeWhitespace raw)"
  let ?toks = "tokenize U ?t (stopwords c)"
  let ?d = "\<lparr> doc_text = ?t, doc_tokens = ?toks, doc_tLen = int (length ?toks) \<rparr>"
  have lt: "maxDocs c > 0 \<longrightarrow> cnt < maxDocs c" using Cons.prems by simp
  have skip: "(\<forall>d\<in>set (buildIndex_loop U c rest ds cnt). doc_ok U c all d) \<and>
         (maxDocs c > 0 \<longrightarrow> int (length (buildIndex_loop U c rest ds cnt)) \<le> maxDocs c)"
    using Cons.prems lt by (intro Cons.IH) auto
  show ?case
  proof (cases "?t = [] \<or> (minParagraphRunes c > 0 \<and> int (RuneCountInString ?t) < minParagraphRunes c) \<or> length ?toks = 0")
    case True
    then have "buildIndex_loop U c (raw # rest) ds cnt = buildIndex_loop U c rest ds cnt"
      by (auto simp: Let_def)
    with skip show ?thesis by simp
  next
    case False
    then have ok: "doc_ok U c all ?d"
      using Cons.prems(2) by (auto simp: doc_ok_def)
    show ?thesis
    proof (cases "maxDocs c > 0 \<and> cnt + 1 \<ge> maxDocs c")
      case True
      then have "buildIndex_loop U c (raw # rest) ds cnt = ds @ [?d]"
        using False by (auto simp: Let_def)
      with ok Cons.prems True lt show ?thesis by auto
    next
      case stop: False
      then have eq: "buildIndex_loop U c (raw # rest) ds cnt = buildIndex_loop U c rest (ds @ [?d]) (cnt + 1)"
        using False by (auto simp: Let_def)
      have "(\<forall>d\<in>set (buildIndex_loop U c rest (ds @ [?d]) (cnt + 1)). doc_ok U c all d) \<and>
         (maxDocs c > 0 \<longrightarrow> int (length (buildIndex_loop U c rest (ds @ [?d]) (cnt + 1))) \<le> maxDocs c)"
        using Cons.prems ok stop by (intro Cons.IH) auto
      with eq show ?thesis by simp
    qed
  qed
qed


lemma buildIndex_docs_ok:
  "(\<forall>d\<in>set (docs (buildIndex U paragraphs c)). doc_ok U c paragraphs d) \<and>
   (maxDocs c > 0 \<longrightarrow> int (length (docs (buildIndex U paragraphs c))) \<le> maxDocs c)"
  using buildIndex_loop_inv[of "[]" U c paragraphs paragraphs 0]
  by (simp add: buildIndex_def)

text \<open>
  Claim C9. For every paragraph list and configuration, every document stored by \<open>buildIndex\<close>
  has a non-empty token set (the tokens of its text, counted by \<open>tLen\<close>); its text is the trimmed,
  whitespace-normalized text of one of the paragraphs, is not empty, and has at least
  \<open>minParagraphRunes\<close> runes whenever \<open>minParagraphRunes > 0\<close>; the number of stored documents never
  exceeds \<open>maxDocs\<close> whenever \<open>maxDocs > 0\<close>; a paragraph that is empty, too short, or tokenizes
  to no token is never stored.
\<close>

theorem buildIndex_stores_only_valid_documents:
  "(\<forall>d\<in>set (docs (buildIndex U paragraphs c)).
      doc_tokens d \<noteq> [] \<and>
      doc_tokens d = tokenize U (doc_text d) (stopwords c) \<and>
      doc_tLen d = int (length (doc_tokens d)) \<and>
      (\<exists>raw\<in>set paragraphs. doc_text d = TrimSpace U (normalizeWhitespace raw)) \<and>
      doc_text d \<noteq> [] \<and>
      (minParagraphRunes c > 0 \<longrightarrow> minParagraphRunes c \<le> int (RuneCountInString (doc_text d)))) \<and>
   (maxDocs c > 0 \<longrightarrow> int (length (docs (buildIndex U paragraphs c))) \<le> maxDocs c) \<and>
   (\<forall>raw\<in>set paragraphs.
      TrimSpace U (normalizeWhitespace raw) = [] \<or>
      (minParagraphRunes c > 0 \<and>
         int (RuneCountInString (TrimSpace U (normalizeWhitespace raw))) < minParagraphRunes c) \<or>
      tokenize U (TrimSpace U (normalizeWhitespace raw)) (stopwords c) = []
      \<longrightarrow> TrimSpace U (normalizeWhitespace raw) \<notin> doc_text ` set (docs (buildIndex U paragraphs c)))"
proof -
  have ok: "\<forall>d\<in>set (docs (buildIndex U paragraphs c)). doc_ok U c paragraphs d"
    and mx: "maxDocs c > 0 \<longrightarrow> int (length (docs (buildIndex U paragraphs c))) \<le> maxDocs c"
    using buildIndex_docs_ok[of U paragraphs c] by simp_all
  have never: "TrimSpace U (normalizeWhitespace raw) \<notin> doc_text ` set (docs (buildIndex U paragraphs c))"
    if "TrimSpace U (normalizeWhitespace raw) = [] \<or>
      (minParagraphRunes c > 0 \<and>
         int (RuneCountInString (TrimSpace U (normalizeWhitespace raw))) < minParagraphRunes c) \<or>
      tokenize U (TrimSpace U (normalizeWhitespace raw)) (stopwords c) = []" for raw
  proof
    assume "TrimSpace U (normalizeWhitespace raw) \<in> doc_text ` set (docs (buildIndex U paragraphs c))"
    then obtain d where d: "d \<in> set (docs (buildIndex U paragraphs c))"
      "doc_text d = TrimSpace U (normalizeWhitespace raw)" by auto
    with ok have "doc_ok U c paragraphs d" by simp
    with d(2) that show False by (auto simp: doc_ok_def)
  qed
  from ok mx never show ?thesis by (auto simp: doc_ok_def)
qed

theorem buildIndex_stores_only_valid_documents_witness:
  "docs (buildIndex ascii
       [[], [32, 9, 32, 13, 32], str ''short'', str ''The and a'', str ''Keep This  Paragraph '',
        str ''Another paragraph here with words'']
       \<lparr> minParagraphRunes = 6, stopwords = [str ''the'', str ''and'', str ''a''], maxDocs = 1 \<rparr>)
   = [\<lparr> doc_text = str ''Keep This Paragraph'',
        doc_tokens = [str ''keep'', str ''this'', str ''paragraph''], doc_tLen = 3 \<rparr>] \<and>
   (0 :: int) < 6 \<and> (6 :: int) \<le> int (RuneCountInString (str ''Keep This Paragraph'')) \<and>
   (0 :: int) < 1 \<and>
   str ''short'' \<in> set [[], [32, 9, 32, 13, 32], str ''short'', str ''The and a'', str ''Keep This  Paragraph '',
        str ''Another paragraph here with words''] \<and>
   int (RuneCountInString (TrimSpace ascii (normalizeWhitespace (str ''short'')))) < 6 \<and>
   TrimSpace ascii (normalizeWhitespace (str ''short'')) \<notin>
     doc_text ` set (docs (buildIndex ascii
       [[], [32, 9, 32, 13, 32], str ''short'', str ''The and a'', str ''Keep This  Paragraph '',
        str ''Another paragraph here with words'']
       \<lparr> minParagraphRunes = 6, stopwords = [str ''the'', str ''and'', str ''a''], maxDocs = 1 \<rparr>))"
proof -
  let ?ps = "[[], [32, 9, 32, 13, 32], str ''short'', str ''The and a'', str ''Keep This  Paragraph '',
        str ''Another paragraph here with words'']"
  let ?c = "\<lparr> minParagraphRunes = 6, stopwords = [str ''the'', str ''and'', str ''a''], maxDocs = 1 \<rparr>"
  let ?d = "\<lparr> doc_text = str ''Keep This Paragraph'',
        doc_tokens = [str ''keep'', str ''this'', str ''paragraph''], doc_tLen = 3 \<rparr>"
  have e: "docs (buildIndex ascii ?ps ?c) = [?d]" by code_simp
  have m: "?d \<in> set (docs (buildIndex ascii ?ps ?c))" unfolding e by simp
  have p: "str ''short'' \<in> set ?ps" by simp
  have sh: "int (RuneCountInString (TrimSpace ascii (normalizeWhitespace (str ''short'')))) < 6" by code_simp
  have c: "minParagraphRunes ?c > 0" "maxDocs ?c > 0" by simp_all
  from buildIndex_stores_only_valid_documents[of ascii ?ps ?c] m c(1)
  have 1: "minParagraphRunes ?c \<le> int (RuneCountInString (doc_text ?d))" by blast
  from buildIndex_stores_only_valid_documents[of ascii ?ps ?c] p sh c(1)
  have 2: "TrimSpace ascii (normalizeWhitespace (str ''short'')) \<notin> doc_text ` set (docs (buildIndex ascii ?ps ?c))"
    by simp
  from e 1 2 p sh show ?thesis by simp
qed

text \<open>
  Claim C10. When the source cannot be read (\<open>os.ReadFile\<close> or \<open>io.ReadAll\<close> returns an error),
  \<open>NewIndexFromMarkdown\<close> and \<open>NewIndexFromReader\<close> return that error together with a non-nil
  Index handle that holds no document, whatever had been read before the error; every \<open>TopK\<close>
  call on this handle gives nil, for every query and every \<open>k\<close>.
\<close>

theorem constructors_unreadable_source:
  "(snd (readFile path) = Some err \<longrightarrow>
      (\<exists>i. NewIndexFromMarkdown U readFile path opts = (Some i, Some err) \<and> docs i = [] \<and>
           (\<forall>q k. TopK U i q k = Inr None))) \<and>
   (\<exists>i. NewIndexFromReader U (partial, Some err) opts = (Some i, Some err) \<and> docs i = [] \<and>
        (\<forall>q k. TopK U i q k = Inr None))"
proof (intro conjI impI)
  assume e: "snd (readFile path) = Some err"
  obtain b where rf: "readFile path = (b, Some err)"
    using e by (cases "readFile path") auto
  let ?i = "\<lparr> cfg = defaultConfig, docs = [] \<rparr>"
  have "NewIndexFromMarkdown U readFile path opts = (Some ?i, Some err)"
    by (simp add: NewIndexFromMarkdown_def rf)
  moreover have "\<forall>q k. TopK U ?i q k = Inr None"
    by (simp add: TopK_empty_index)
  ultimately show "\<exists>i. NewIndexFromMarkdown U readFile path opts = (Some i, Some err) \<and> docs i = [] \<and>
           (\<forall>q k. TopK U i q k = Inr None)"
    by (intro exI[of _ ?i]) simp
next
  let ?i = "\<lparr> cfg = applyOptions U opts defaultConfig, docs = [] \<rparr>"
  have "NewIndexFromReader U (partial, Some err) opts = (Some ?i, Some err)"
    by (simp add: NewIndexFromReader_def)
  moreover have "\<forall>q k. TopK U ?i q k = Inr None"
    by (simp add: TopK_empty_index)
  ultimately show "\<exists>i. NewIndexFromReader U (partial, Some err) opts = (Some i, Some err) \<and> docs i = [] \<and>
        (\<forall>q k. TopK U i q k = Inr None)"
    by (intro exI[of _ ?i]) simp
qed


theorem constructors_unreadable_source_witness:
  "snd ((\<lambda>p. (str ''Alpha beta'', Some (IOError (str ''read error'')))) (str ''missing.md''))
     = Some (IOError (str ''read error'')) \<and>
   NewIndexFromMarkdown ascii (\<lambda>p. (str ''Alpha beta'', Some (IOError (str ''read error''))))
       (str ''missing.md'') [WithMinParagraphRunes 0]
     = (Some \<lparr> cfg = defaultConfig, docs = [] \<rparr>, Some (IOError (str ''read error''))) \<and>
   TopK ascii \<lparr> cfg = defaultConfig, docs = [] \<rparr> (str ''alpha'') 5 = Inr None"
proof -
  let ?rf = "\<lambda>p :: gostring. (str ''Alpha beta'', Some (IOError (str ''read error'')))"
  let ?err = "IOError (str ''read error'')"
  have h: "snd (?rf (str ''missing.md'')) = Some ?err" by simp
  from constructors_unreadable_source[of ?rf "str ''missing.md''" ?err ascii "[WithMinParagraphRunes 0]"] h
  obtain i where i: "NewIndexFromMarkdown ascii ?rf (str ''missing.md'') [WithMinParagraphRunes 0] = (Some i, Some ?err)"
    "docs i = []" "\<forall>q k. TopK ascii i q k = Inr None"
    by blast
  have "NewIndexFromMarkdown ascii ?rf (str ''missing.md'') [WithMinParagraphRunes 0]
          = (Some \<lparr> cfg = defaultConfig, docs = [] \<rparr>, Some ?err)"
    by (simp add: NewIndexFromMarkdown_def)
  with i have "i = \<lparr> cfg = defaultConfig, docs = [] \<rparr>" by simp
  with i h show ?thesis by simp
qed

subsection \<open>The comparison of TopK is a strict total order on the sort key\<close>

lemma strLess_irrefl: "\<not> strLess xs xs"
  by (induction xs) auto

lemma strLess_trans: "strLess xs ys \<Longrightarrow> strLess ys zs \<Longrightarrow> strLess xs zs"
proof (induction xs ys arbitrary: zs rule: strLess.induct)
  case (4 x xs y ys)
  then show ?case by (cases zs) auto
qed (auto elim: strLess.elims)

lemma strLess_total: "strLess xs ys \<or> xs = ys \<or> strLess ys xs"
  by (induction xs ys rule: strLess.induct) auto

lemma strLess_asym: "strLess xs ys \<Longrightarrow> \<not> strLess ys xs"
  using strLess_trans strLess_irrefl by blast

lemma lessScored_asym: "lessScored a b \<Longrightarrow> \<not> lessScored b a"
  by (auto simp: lessScored_def strLess_asym split: if_splits)

lemma lessScored_trans: "lessScored a b \<Longrightarrow> lessScored b c \<Longrightarrow> lessScored a c"
  by (auto simp: lessScored_def split: if_splits intro: strLess_trans)

lemma lessScored_total:
  "\<not> lessScored a b \<Longrightarrow> \<not> lessScored b a \<Longrightarrow>
     score a = score b \<and> lenRunes a = lenRunes b \<and> snippet a = snippet b"
  using strLess_total[of "snippet a" "snippet b"]
  by (auto simp: lessScored_def split: if_splits)

lemma lessScored_cong:
  "score a = score b \<Longrightarrow> lenRunes a = lenRunes b \<Longrightarrow> snippet a = snippet b \<Longrightarrow>
     lessScored c a = lessScored c b"
  by (simp add: lessScored_def)

lemma notLess_trans:
  assumes "\<not> lessScored b a" "\<not> lessScored c b"
  shows "\<not> lessScored c a"
proof
  assume ca: "lessScored c a"
  show False
  proof (cases "lessScored a b")
    case True
    with ca have "lessScored c b" by (rule lessScored_trans)
    with assms show False by simp
  next
    case False
    with assms(1) have "score a = score b \<and> lenRunes a = lenRunes b \<and> snippet a = snippet b"
      by (intro lessScored_total) 
    with ca have "lessScored c b" using lessScored_cong[of a b c] by simp
    with assms show False by simp
  qed
qed

subsection \<open>The stable sort\<close>

lemma set_insertStable: "set (insertStable lt x ys) = insert x (set ys)"
  by (induction ys) auto

lemma set_sortSliceStable: "set (sortSliceStable lt xs) = set xs"
  by (induction xs) (auto simp: sortSliceStable_def set_insertStable)

lemma length_insertStable: "length (insertStable lt x ys) = Suc (length ys)"
  by (induction ys) auto

lemma length_sortSliceStable: "length (sortSliceStable lt xs) = length xs"
  by (induction xs) (auto simp: sortSliceStable_def length_insertStable)



lemma sorted_insertStable_gen:
  assumes asym: "\<And>a b. lt a b \<Longrightarrow> \<not> lt b a"
    and ntrans: "\<And>a b c. \<not> lt b a \<Longrightarrow> \<not> lt c b \<Longrightarrow> \<not> lt c a"
  shows "sorted_wrt (\<lambda>a b. \<not> lt b a) ys \<Longrightarrow> sorted_wrt (\<lambda>a b. \<not> lt b a) (insertStable lt x ys)"
proof (induction ys)
  case Nil
  then show ?case by simp
next
  case (Cons y ys)
  show ?case
  proof (cases "lt y x")
    case True
    with Cons show ?thesis
      by (auto simp: set_insertStable dest: asym)
  next
    case False
    have "\<not> lt z x" if "z \<in> set ys" for z
      using ntrans[of y x z] False Cons.prems that by auto
    with False Cons.prems show ?thesis
      by auto
  qed
qed

lemma sorted_sortSliceStable_gen:
  assumes "\<And>a b. lt a b \<Longrightarrow> \<not> lt b a" "\<And>a b c. \<not> lt b a \<Longrightarrow> \<not> lt c b \<Longrightarrow> \<not> lt c a"
  shows "sorted_wrt (\<lambda>a b. \<not> lt b a) (sortSliceStable lt xs)"
  by (induction xs) (auto simp: sortSliceStable_def intro: sorted_insertStable_gen[OF assms])

lemma sorted_sortSliceStable:
  "sorted_wrt (\<lambda>a b. \<not> lessScored b a) (sortSliceStable lessScored xs)"
proof (rule sorted_sortSliceStable_gen)
  show "\<not> lessScored b a" if "lessScored a b" for a b
    using that by (rule lessScored_asym)
  show "\<not> lessScored c a" if "\<not> lessScored b a" "\<not> lessScored c b" for a b c
    using that by (rule notLess_trans)
qed

subsection \<open>Scores\<close>

lemma tokenize_distinct: "distinct (tokenize U s stop)"
  by (simp add: tokenize_def Let_def)

lemma overlap_card:
  assumes "distinct a" "distinct b"
  shows "overlap a b = int (card (set a \<inter> set b))"
proof -
  have 1: "length (filter (\<lambda>k. k \<in> set b) a) = card (set a \<inter> set b)"
    using assms(1) by (simp add: distinct_length_filter Int_def conj_commute)
  have 2: "length (filter (\<lambda>k. k \<in> set a) b) = card (set a \<inter> set b)"
    using assms(2) by (simp add: distinct_length_filter Int_def conj_commute)
  show ?thesis
    using 1 2 by (auto simp: overlap_def)
qed

lemma scoreDocs_mem:
  assumes "s \<in> set (scoreDocs qT qLen ds)"
  shows "\<exists>d\<in>set ds. snippet s = doc_text d \<and> lenRunes s = int (RuneCountInString (doc_text d)) \<and>
           overlap qT (doc_tokens d) \<noteq> 0 \<and>
           score s = of_int (overlap qT (doc_tokens d)) / of_int (qLen + doc_tLen d - overlap qT (doc_tokens d)) \<and>
           0 < score s"
  using assms
proof (induction ds)
  case Nil
  then show ?case by simp
next
  case (Cons d ds)
  then show ?case
    by (auto simp: Let_def not_le split: if_splits)
qed

lemma TopK_results:
  assumes "TopK U i q k = Inr (Some rs)"
  shows "\<exists>sorted. rs = map toResult (take (length rs) sorted) \<and> length rs \<le> length sorted \<and>
           sorted = sortSliceStable lessScored
             (scoreDocs (tokenize U q (stopwords (cfg i))) (int (length (tokenize U q (stopwords (cfg i))))) (docs i))"
  using assms
  by (auto simp: TopK_def Let_def toResult_def[abs_def] min_def split: if_splits)

lemma jaccard_bounds:
  assumes "finite Q" "finite D" "card (Q \<inter> D) > 0"
  shows "0 < jaccard Q D \<and> jaccard Q D \<le> 1"
proof -
  have u: "(of_nat (card Q) + of_nat (card D) - of_nat (card (Q \<inter> D)) :: rat) = of_nat (card (Q \<union> D))"
    using card_Un_Int[OF assms(1,2)] by (simp add: algebra_simps flip: of_nat_add)
  have le: "card (Q \<inter> D) \<le> card (Q \<union> D)"
    using assms by (intro card_mono) auto
  then have pos: "0 < card (Q \<union> D)" using assms(3) by simp
  show ?thesis
    unfolding jaccard_def u using le pos assms(3) by simp
qed


text \<open>
  Claim C6. For every index built by the constructors and every query, every result returned
  by \<open>TopK\<close> is the text of a stored document that shares at least one token with the query, its
  score is the Jaccard similarity of the query token set and the document token set, the score
  lies in (0,1], and a document that shares no token with the query is not among the results.
\<close>

theorem TopK_scores_are_jaccard:
  assumes "TopK U (buildIndex U paragraphs c) q k = Inr (Some rs)" and "r \<in> set rs"
  shows "(\<exists>d\<in>set (docs (buildIndex U paragraphs c)).
            Snippet r = doc_text d \<and>
            set (tokenize U q (stopwords c)) \<inter> set (doc_tokens d) \<noteq> {} \<and>
            Score r = jaccard (set (tokenize U q (stopwords c))) (set (doc_tokens d))) \<and>
         0 < Score r \<and> Score r \<le> 1 \<and>
         (\<forall>d\<in>set (docs (buildIndex U paragraphs c)).
            set (tokenize U q (stopwords c)) \<inter> set (doc_tokens d) = {} \<longrightarrow> Snippet r \<noteq> doc_text d)"
proof -
  let ?i = "buildIndex U paragraphs c"
  let ?qT = "tokenize U q (stopwords c)"
  have cfg: "cfg ?i = c" by (simp add: buildIndex_def)
  have inv: "\<forall>d\<in>set (docs ?i). doc_ok U c paragraphs d"
    using buildIndex_docs_ok[of U paragraphs c] by simp
  obtain sorted where rs: "rs = map toResult (take (length rs) sorted)"
    and sorted: "sorted = sortSliceStable lessScored (scoreDocs ?qT (int (length ?qT)) (docs ?i))"
    using TopK_results[OF assms(1)] cfg by auto
  from assms(2) rs obtain s where s: "s \<in> set sorted" "r = toResult s"
    by (metis (no_types, lifting) imageE in_set_takeD list.set_map)
  then have "s \<in> set (scoreDocs ?qT (int (length ?qT)) (docs ?i))"
    using sorted by (simp add: set_sortSliceStable)
  then obtain d where d: "d \<in> set (docs ?i)" "snippet s = doc_text d"
      "overlap ?qT (doc_tokens d) \<noteq> 0"
      "score s = of_int (overlap ?qT (doc_tokens d)) / of_int (int (length ?qT) + doc_tLen d - overlap ?qT (doc_tokens d))"
    using scoreDocs_mem by blast
  have ok: "doc_ok U c paragraphs d" using inv d(1) by simp
  then have dd: "distinct (doc_tokens d)" and tl: "doc_tLen d = int (length (doc_tokens d))"
    using tokenize_distinct[of U "doc_text d" "stopwords c"] by (auto simp: doc_ok_def)
  have ov: "overlap ?qT (doc_tokens d) = int (card (set ?qT \<inter> set (doc_tokens d)))"
    using overlap_card[OF tokenize_distinct dd] .
  have lq: "length ?qT = card (set ?qT)" and ld: "length (doc_tokens d) = card (set (doc_tokens d))"
    using tokenize_distinct[of U q "stopwords c"] dd by (simp_all add: distinct_card)
  have pos: "card (set ?qT \<inter> set (doc_tokens d)) > 0"
    using d(3) ov by (simp add: card_gt_0_iff)
  then have ne: "set ?qT \<inter> set (doc_tokens d) \<noteq> {}" by auto
  have sc: "score s = jaccard (set ?qT) (set (doc_tokens d))"
    unfolding d(4) ov tl lq ld jaccard_def by (simp add: of_rat_diff)
  have b: "0 < jaccard (set ?qT) (set (doc_tokens d)) \<and> jaccard (set ?qT) (set (doc_tokens d)) \<le> 1"
    using pos by (intro jaccard_bounds) auto
  have r: "Snippet r = doc_text d" "Score r = jaccard (set ?qT) (set (doc_tokens d))"
    using s(2) d(2) sc by (simp_all add: toResult_def)
  have zero: "Snippet r \<noteq> doc_text d'" if "d' \<in> set (docs ?i)" "set ?qT \<inter> set (doc_tokens d') = {}" for d'
  proof
    assume "Snippet r = doc_text d'"
    then have "doc_text d' = doc_text d" using r by simp
    moreover have "doc_tokens d' = tokenize U (doc_text d') (stopwords c)"
      using inv that(1) by (auto simp: doc_ok_def)
    moreover have "doc_tokens d = tokenize U (doc_text d) (stopwords c)"
      using ok by (auto simp: doc_ok_def)
    ultimately have "doc_tokens d' = doc_tokens d" by simp
    with that(2) ne show False by simp
  qed
  show ?thesis
    using d(1) r ne b zero by auto
qed

theorem TopK_scores_are_jaccard_witness:
  "TopK ascii (buildIndex ascii [str ''alpha beta'', str ''alpha beta gamma'', str ''delta epsilon'']
       \<lparr> minParagraphRunes = 0, stopwords = [], maxDocs = 0 \<rparr>) (str ''alpha beta'') 5
     = Inr (Some [\<lparr> Snippet = str ''alpha beta'', Score = 1 \<rparr>,
                  \<lparr> Snippet = str ''alpha beta gamma'', Score = 2 / 3 \<rparr>]) \<and>
   \<lparr> Snippet = str ''alpha beta gamma'', Score = 2 / 3 \<rparr>
     \<in> set [\<lparr> Snippet = str ''alpha beta'', Score = 1 \<rparr>, \<lparr> Snippet = str ''alpha beta gamma'', Score = 2 / 3 \<rparr>] \<and>
   (0 :: rat) < 2 / 3 \<and> (2 / 3 :: rat) \<le> 1 \<and>
   jaccard (set [str ''alpha'', str ''beta'']) (set [str ''alpha'', str ''beta'', str ''gamma'']) = 2 / 3"
proof -
  let ?ps = "[str ''alpha beta'', str ''alpha beta gamma'', str ''delta epsilon'']"
  let ?c = "\<lparr> minParagraphRunes = 0, stopwords = [], maxDocs = 0 \<rparr>"
  let ?r = "\<lparr> Snippet = str ''alpha beta gamma'', Score = 2 / 3 \<rparr>"
  let ?rs = "[\<lparr> Snippet = str ''alpha beta'', Score = 1 \<rparr>, ?r]"
  have e: "TopK ascii (buildIndex ascii ?ps ?c) (str ''alpha beta'') 5 = Inr (Some ?rs)" by code_simp
  have m: "?r \<in> set ?rs" by simp
  have j: "jaccard (set [str ''alpha'', str ''beta'']) (set [str ''alpha'', str ''beta'', str ''gamma'']) = 2 / 3"
    by (simp add: jaccard_def str_def Int_insert_left)
  from TopK_scores_are_jaccard[OF e m] have "0 < Score ?r \<and> Score ?r \<le> 1" by blast
  with e m j show ?thesis by simp
qed

subsection \<open>Ranking\<close>

lemma scoreDocs_lenRunes:
  "s \<in> set (scoreDocs qT qLen ds) \<Longrightarrow> lenRunes s = int (RuneCountInString (snippet s))"
  using scoreDocs_mem by fastforce

lemma not_lessScored_ranks:
  assumes "\<not> lessScored b a"
    and "lenRunes a = int (RuneCountInString (snippet a))" "lenRunes b = int (RuneCountInString (snippet b))"
  shows "ranksBefore (toResult a) (toResult b) \<or> toResult a = toResult b"
proof (cases "lessScored a b")
  case True
  then show ?thesis
    using assms(2,3) by (auto simp: lessScored_def ranksBefore_def toResult_def split: if_splits)
next
  case False
  with assms(1) have "score a = score b \<and> snippet a = snippet b"
    using lessScored_total[of a b] by simp
  then show ?thesis by (simp add: toResult_def)
qed

lemma ranksBefore_total: "ranksBefore a b \<or> ranksBefore b a \<or> (Score a = Score b \<and> Snippet a = Snippet b)"
  using strLess_total[of "Snippet a" "Snippet b"]
  by (auto simp: ranksBefore_def)

lemma ranksBefore_asym: "ranksBefore a b \<Longrightarrow> \<not> ranksBefore b a"
  by (auto simp: ranksBefore_def dest: strLess_asym)

lemma ranksBefore_trans: "ranksBefore a b \<Longrightarrow> ranksBefore b c \<Longrightarrow> ranksBefore a c"
  by (auto simp: ranksBefore_def intro: strLess_trans)

lemma scoreDocs_same_tokens:
  assumes "set (doc_tokens d1) = set (doc_tokens d2)" "distinct (doc_tokens d1)" "distinct (doc_tokens d2)"
    "doc_tLen d1 = int (length (doc_tokens d1))" "doc_tLen d2 = int (length (doc_tokens d2))"
    "distinct qT" "set qT = set (doc_tokens d1)" "qT \<noteq> []"
  shows "scoreDocs qT (int (length qT)) [d1] = [\<lparr> snippet = doc_text d1, score = 1, lenRunes = int (RuneCountInString (doc_text d1)) \<rparr>]"
    and "scoreDocs qT (int (length qT)) [d2] = [\<lparr> snippet = doc_text d2, score = 1, lenRunes = int (RuneCountInString (doc_text d2)) \<rparr>]"
proof -
  have l1: "length (doc_tokens d1) = length qT" and l2: "length (doc_tokens d2) = length qT"
    using assms by (metis distinct_card)+
  have q: "length qT > 0" using assms(8) by simp
  have c1: "card (set qT \<inter> set (doc_tokens d1)) = length qT"
    using assms(6) by (simp add: assms(7)[symmetric] distinct_card)
  have c2: "card (set qT \<inter> set (doc_tokens d2)) = length qT"
    using assms(6) by (simp add: assms(1)[symmetric] assms(7)[symmetric] distinct_card)
  have o1: "overlap qT (doc_tokens d1) = int (length qT)"
    using overlap_card[OF assms(6) assms(2)] c1 by simp
  have o2: "overlap qT (doc_tokens d2) = int (length qT)"
    using overlap_card[OF assms(6) assms(3)] c2 by simp
  show "scoreDocs qT (int (length qT)) [d1] = [\<lparr> snippet = doc_text d1, score = 1, lenRunes = int (RuneCountInString (doc_text d1)) \<rparr>]"
    using q by (simp add: o1 assms(4) l1 Let_def)
  show "scoreDocs qT (int (length qT)) [d2] = [\<lparr> snippet = doc_text d2, score = 1, lenRunes = int (RuneCountInString (doc_text d2)) \<rparr>]"
    using q by (simp add: o2 assms(5) l2 Let_def)
qed

lemma scoreDocs_append: "scoreDocs qT qLen (xs @ ys) = scoreDocs qT qLen xs @ scoreDocs qT qLen ys"
  by (induction xs) (auto simp: Let_def)


text \<open>
  Claim C5. For every index and every query, the results of \<open>TopK\<close> are in the order of the
  specification (score descending, then snippet rune length ascending, then snippet text
  ascending): of two results, the earlier one ranks before the later one or equals it. The order
  is a strict total order: two different results are always ranked one before the other, never
  both ways, and ranking is transitive. In particular, for an
  index of two documents with identical token sets and snippets of 10 and 14 runes, queried with
  all their tokens, \<open>TopK\<close> returns both with score 1, the shorter snippet first.
\<close>

theorem TopK_total_order:
  "(TopK U i q k = Inr (Some rs) \<and> m < n \<and> n < length rs \<longrightarrow>
      ranksBefore (rs ! m) (rs ! n) \<or> rs ! m = rs ! n) \<and>
   (ranksBefore a b \<or> ranksBefore b a \<or> a = (b :: Result)) \<and>
   (ranksBefore a b \<longrightarrow> \<not> ranksBefore b a) \<and>
   (ranksBefore a b \<and> ranksBefore b c \<longrightarrow> ranksBefore a c) \<and>
   ((docs i = [d1, d2] \<or> docs i = [d2, d1]) \<and>
       set (doc_tokens d1) = set (doc_tokens d2) \<and> distinct (doc_tokens d1) \<and> distinct (doc_tokens d2) \<and>
       doc_tLen d1 = int (length (doc_tokens d1)) \<and> doc_tLen d2 = int (length (doc_tokens d2)) \<and>
       RuneCountInString (doc_text d1) = 10 \<and> RuneCountInString (doc_text d2) = 14 \<and>
       set (tokenize U q (stopwords (cfg i))) = set (doc_tokens d1) \<and> doc_tokens d1 \<noteq> [] \<and>
       TrimSpace U q \<noteq> [] \<and> (k \<le> 0 \<or> 2 \<le> k \<and> k < 2 ^ 61)
     \<longrightarrow> TopK U i q k = Inr (Some [\<lparr> Snippet = doc_text d1, Score = 1 \<rparr>, \<lparr> Snippet = doc_text d2, Score = 1 \<rparr>]))"
proof (intro conjI impI)
  assume tmn: "TopK U i q k = Inr (Some rs) \<and> m < n \<and> n < length rs"
  then have t: "TopK U i q k = Inr (Some rs)" and mn: "m < n \<and> n < length rs" by simp_all
  let ?qT = "tokenize U q (stopwords (cfg i))"
  let ?buf = "scoreDocs ?qT (int (length ?qT)) (docs i)"
  obtain sorted where rs: "rs = map toResult (take (length rs) sorted)" and len: "length rs \<le> length sorted"
    and sorted: "sorted = sortSliceStable lessScored ?buf"
    using TopK_results[OF t] by auto
  have sw: "sorted_wrt (\<lambda>a b. \<not> lessScored b a) sorted"
    unfolding sorted by (rule sorted_sortSliceStable)
  have m: "m < length sorted" and n: "n < length sorted" using mn len by auto
  have nl: "\<not> lessScored (sorted ! n) (sorted ! m)"
    using sw mn n by (simp add: sorted_wrt_iff_nth_less)
  have mem: "sorted ! m \<in> set ?buf" "sorted ! n \<in> set ?buf"
    using m n sorted set_sortSliceStable[of lessScored ?buf] by (metis nth_mem)+
  have "rs ! m = toResult (sorted ! m)" "rs ! n = toResult (sorted ! n)"
    using mn rs by (metis length_map nth_map nth_take order.strict_trans)+
  then show "ranksBefore (rs ! m) (rs ! n) \<or> rs ! m = rs ! n"
    using not_lessScored_ranks[OF nl scoreDocs_lenRunes[OF mem(1)] scoreDocs_lenRunes[OF mem(2)]] by simp
next
  show "ranksBefore a b \<or> ranksBefore b a \<or> a = b"
    using ranksBefore_total[of a b] by auto
next
  assume "ranksBefore a b"
  then show "\<not> ranksBefore b a" by (rule ranksBefore_asym)
next
  assume "ranksBefore a b \<and> ranksBefore b c"
  then show "ranksBefore a c" using ranksBefore_trans by blast
next
  assume h: "(docs i = [d1, d2] \<or> docs i = [d2, d1]) \<and>
       set (doc_tokens d1) = set (doc_tokens d2) \<and> distinct (doc_tokens d1) \<and> distinct (doc_tokens d2) \<and>
       doc_tLen d1 = int (length (doc_tokens d1)) \<and> doc_tLen d2 = int (length (doc_tokens d2)) \<and>
       RuneCountInString (doc_text d1) = 10 \<and> RuneCountInString (doc_text d2) = 14 \<and>
       set (tokenize U q (stopwords (cfg i))) = set (doc_tokens d1) \<and> doc_tokens d1 \<noteq> [] \<and>
       TrimSpace U q \<noteq> [] \<and> (k \<le> 0 \<or> 2 \<le> k \<and> k < 2 ^ 61)"
  let ?qT = "tokenize U q (stopwords (cfg i))"
  let ?k = "if k \<le> 0 then 3 else k"
  let ?s1 = "\<lparr> snippet = doc_text d1, score = 1, lenRunes = int (RuneCountInString (doc_text d1)) \<rparr>"
  let ?s2 = "\<lparr> snippet = doc_text d2, score = 1, lenRunes = int (RuneCountInString (doc_text d2)) \<rparr>"
  have qne: "?qT \<noteq> []" using h by (metis set_empty)
  have sd: "scoreDocs ?qT (int (length ?qT)) [d1] = [?s1]" "scoreDocs ?qT (int (length ?qT)) [d2] = [?s2]"
    using scoreDocs_same_tokens[of d1 d2 ?qT] h qne tokenize_distinct[of U q "stopwords (cfg i)"] by auto
  have buf: "scoreDocs ?qT (int (length ?qT)) (docs i) = [?s1, ?s2] \<or> scoreDocs ?qT (int (length ?qT)) (docs i) = [?s2, ?s1]"
    using h sd scoreDocs_append[of ?qT "int (length ?qT)" "[d1]" "[d2]"] scoreDocs_append[of ?qT "int (length ?qT)" "[d2]" "[d1]"]
    by auto
  have srt: "sortSliceStable lessScored (scoreDocs ?qT (int (length ?qT)) (docs i)) = [?s1, ?s2]"
    using buf h by (auto simp: sortSliceStable_def lessScored_def)
  have k: "0 < ?k" "?k < 2 ^ 61" "2 \<le> ?k" using h by auto
  have "int64 (?k * 4) = ?k * 4"
    using k by (intro int64_small) auto
  then have np: "\<not> min (int64 (?k * 4)) (int (length (docs i))) < 0"
    using k by simp
  have len: "length (docs i) = 2" using h by auto
  have bne: "scoreDocs ?qT (int (length ?qT)) (docs i) \<noteq> []" using buf by auto
  have tk: "take (nat (if ?k > 2 then 2 else ?k)) [?s1, ?s2] = [?s1, ?s2]"
    using k by auto
  have tk': "take (nat (if ?k > int (length [?s1, ?s2]) then int (length [?s1, ?s2]) else ?k)) [?s1, ?s2] = [?s1, ?s2]"
    using k by (auto split: if_splits)
  have "TopK U i q k = Inr (Some (map (\<lambda>b. \<lparr> Snippet = snippet b, Score = score b \<rparr>) [?s1, ?s2]))"
    unfolding TopK_def Let_def srt tk' using h qne np len bne
    by (simp del: min_less_iff_disj)
  then show "TopK U i q k = Inr (Some [\<lparr> Snippet = doc_text d1, Score = 1 \<rparr>, \<lparr> Snippet = doc_text d2, Score = 1 \<rparr>])"
    by simp
qed

theorem TopK_total_order_witness:
  "TopK ascii \<lparr> cfg = defaultConfig,
                 docs = [\<lparr> doc_text = str ''alpha beta!!!!'', doc_tokens = [str ''alpha'', str ''beta''], doc_tLen = 2 \<rparr>,
                         \<lparr> doc_text = str ''alpha beta'', doc_tokens = [str ''alpha'', str ''beta''], doc_tLen = 2 \<rparr>] \<rparr>
     (str ''alpha beta'') 10
     = Inr (Some [\<lparr> Snippet = str ''alpha beta'', Score = 1 \<rparr>, \<lparr> Snippet = str ''alpha beta!!!!'', Score = 1 \<rparr>]) \<and>
   ranksBefore \<lparr> Snippet = str ''alpha beta'', Score = 1 \<rparr> \<lparr> Snippet = str ''alpha beta!!!!'', Score = 1 \<rparr> \<and>
   \<not> ranksBefore \<lparr> Snippet = str ''alpha beta!!!!'', Score = 1 \<rparr> \<lparr> Snippet = str ''alpha beta'', Score = 1 \<rparr>"
proof -
  let ?d1 = "\<lparr> doc_text = str ''alpha beta'', doc_tokens = [str ''alpha'', str ''beta''], doc_tLen = 2 \<rparr>"
  let ?d2 = "\<lparr> doc_text = str ''alpha beta!!!!'', doc_tokens = [str ''alpha'', str ''beta''], doc_tLen = 2 \<rparr>"
  let ?i = "\<lparr> cfg = defaultConfig, docs = [?d2, ?d1] \<rparr>"
  let ?r1 = "\<lparr> Snippet = str ''alpha beta'', Score = 1 \<rparr>"
  let ?r2 = "\<lparr> Snippet = str ''alpha beta!!!!'', Score = 1 \<rparr>"
  have tk: "tokenize ascii (str ''alpha beta'') (stopwords (cfg ?i)) = [str ''alpha'', str ''beta'']"
    by code_simp
  have ts: "TrimSpace ascii (str ''alpha beta'') \<noteq> []" by code_simp
  have h: "(docs ?i = [?d1, ?d2] \<or> docs ?i = [?d2, ?d1]) \<and>
       set (doc_tokens ?d1) = set (doc_tokens ?d2) \<and> distinct (doc_tokens ?d1) \<and> distinct (doc_tokens ?d2) \<and>
       doc_tLen ?d1 = int (length (doc_tokens ?d1)) \<and> doc_tLen ?d2 = int (length (doc_tokens ?d2)) \<and>
       RuneCountInString (doc_text ?d1) = 10 \<and> RuneCountInString (doc_text ?d2) = 14 \<and>
       set (tokenize ascii (str ''alpha beta'') (stopwords (cfg ?i))) = set (doc_tokens ?d1) \<and> doc_tokens ?d1 \<noteq> [] \<and>
       TrimSpace ascii (str ''alpha beta'') \<noteq> [] \<and> ((10 :: int) \<le> 0 \<or> 2 \<le> (10 :: int) \<and> (10 :: int) < 2 ^ 61)"
    unfolding tk using ts by (simp add: str_def RuneCountInString_def)
  have "TopK ascii ?i (str ''alpha beta'') 10
          = Inr (Some [\<lparr> Snippet = doc_text ?d1, Score = 1 \<rparr>, \<lparr> Snippet = doc_text ?d2, Score = 1 \<rparr>])"
    using TopK_total_order[where U = ascii and i = ?i and q = "str ''alpha beta''" and k = 10
        and ?d1.0 = ?d1 and ?d2.0 = ?d2, THEN conjunct2, THEN conjunct2, THEN conjunct2, THEN conjunct2] h
    by (rule mp)
  then have e: "TopK ascii ?i (str ''alpha beta'') 10 = Inr (Some [?r1, ?r2])"
    by simp
  have mn: "TopK ascii ?i (str ''alpha beta'') 10 = Inr (Some [?r1, ?r2]) \<and> (0 :: nat) < 1 \<and> 1 < length [?r1, ?r2]"
    using e by simp
  have "ranksBefore ([?r1, ?r2] ! 0) ([?r1, ?r2] ! 1) \<or> [?r1, ?r2] ! 0 = [?r1, ?r2] ! 1"
    using TopK_total_order[where U = ascii and i = ?i and q = "str ''alpha beta''" and k = 10
        and rs = "[?r1, ?r2]" and m = 0 and n = 1, THEN conjunct1] mn
    by (rule mp)
  moreover have "?r1 \<noteq> ?r2" by (simp add: str_def)
  ultimately have rb: "ranksBefore ?r1 ?r2" by simp
  have "\<not> ranksBefore ?r2 ?r1"
    using TopK_total_order[where a = ?r1 and b = ?r2, THEN conjunct2, THEN conjunct2, THEN conjunct1] rb
    by (rule mp)
  with e rb show ?thesis by simp
qed


section \<open>Properties of retrieve\<close>

subsection \<open>Substrings\<close>

lemma HasPrefix_iff: "HasPrefix s p \<longleftrightarrow> (\<exists>v. s = p @ v)"
  by (induction s p rule: HasPrefix.induct) auto

lemma Contains_iff: "Contains s t \<longleftrightarrow> (\<exists>u v. s = u @ t @ v)"
proof (induction s)
  case Nil
  then show ?case by auto
next
  case (Cons c cs)
  show ?case
  proof
    assume "Contains (c # cs) t"
    then consider "HasPrefix (c # cs) t" | "Contains cs t" by auto
    then show "\<exists>u v. c # cs = u @ t @ v"
    proof cases
      case 1
      then obtain v where "c # cs = t @ v" by (auto simp: HasPrefix_iff)
      then have "c # cs = [] @ t @ v" by simp
      then show ?thesis by blast
    next
      case 2
      then obtain u v where "cs = u @ t @ v" using Cons.IH by auto
      then have "c # cs = (c # u) @ t @ v" by simp
      then show ?thesis by blast
    qed
  next
    assume "\<exists>u v. c # cs = u @ t @ v"
    then obtain u v where uv: "c # cs = u @ t @ v" by auto
    show "Contains (c # cs) t"
    proof (cases u)
      case Nil
      with uv have "HasPrefix (c # cs) t" by (auto simp: HasPrefix_iff)
      then show ?thesis by simp
    next
      case (Cons a u')
      with uv have "cs = u' @ t @ v" by simp
      then have "Contains cs t" using Cons.IH by blast
      then show ?thesis by simp
    qed
  qed
qed

lemma alnumRE_scan_sub:
  "t \<in> set (alnumRE_scan U cur s) \<Longrightarrow> \<exists>u v. rev cur @ s = u @ t @ v"
proof (induction s arbitrary: cur)
  case Nil
  then show ?case by (auto split: if_splits intro: exI[of _ "[]"])
next
  case (Cons c cs)
  show ?case
  proof (cases "alnum U c")
    case True
    with Cons.prems have "t \<in> set (alnumRE_scan U (c # cur) cs)" by simp
    then obtain u v where "rev (c # cur) @ cs = u @ t @ v" using Cons.IH by blast
    then show ?thesis by auto
  next
    case False
    with Cons.prems consider "cur \<noteq> []" "t = rev cur" | "t \<in> set (alnumRE_scan U [] cs)"
      by (auto split: if_splits)
    then show ?thesis
    proof cases
      case 1
      then have "rev cur @ c # cs = [] @ t @ (c # cs)" by simp
      then show ?thesis by blast
    next
      case 2
      then obtain u v where "rev [] @ cs = u @ t @ v" using Cons.IH by blast
      then have "rev cur @ c # cs = (rev cur @ c # u) @ t @ v" by simp
      then show ?thesis by blast
    qed
  qed
qed

lemma alnumRE_token_Contains: "t \<in> set (alnumRE_FindAllString U s) \<Longrightarrow> Contains s t"
  using alnumRE_scan_sub[of t U "[]" s] by (simp add: alnumRE_FindAllString_def Contains_iff)


text \<open>The cleaned snippet is put together from pieces of the snippet, joined by spaces and
  newlines: a word without space and newline that occurs in the cleaned snippet occurs in the
  snippet.\<close>

lemma Contains_Nil: "Contains s []"
  by (cases s) simp_all

lemma Contains_refl: "Contains s s"
  using Contains_iff[of s s] by (metis append_Nil append_Nil2)

lemma Contains_trans: "Contains s x \<Longrightarrow> Contains x t \<Longrightarrow> Contains s t"
proof -
  assume "Contains s x" "Contains x t"
  then obtain u v u' v' where "s = u @ x @ v" "x = u' @ t @ v'"
    by (auto simp: Contains_iff)
  then have "s = (u @ u') @ t @ (v' @ v)" by simp
  then show ?thesis unfolding Contains_iff by blast
qed

lemma Contains_map: "Contains s x \<Longrightarrow> Contains (map f s) (map f x)"
proof -
  assume "Contains s x"
  then obtain u v where "s = u @ x @ v" by (auto simp: Contains_iff)
  then have "map f s = map f u @ map f x @ map f v" by simp
  then show ?thesis unfolding Contains_iff by blast
qed

lemma Contains_appendI1: "Contains a t \<Longrightarrow> Contains (a @ b) t"
proof -
  assume "Contains a t"
  then obtain u v where "a = u @ t @ v" by (auto simp: Contains_iff)
  then have "a @ b = u @ t @ (v @ b)" by simp
  then show ?thesis unfolding Contains_iff by blast
qed

lemma Contains_appendI2: "Contains b t \<Longrightarrow> Contains (a @ b) t"
proof -
  assume "Contains b t"
  then obtain u v where "b = u @ t @ v" by (auto simp: Contains_iff)
  then have "a @ b = (a @ u) @ t @ v" by simp
  then show ?thesis unfolding Contains_iff by blast
qed

lemma Contains_append_mid:
  assumes "Contains (a @ c # b) t" "c \<notin> set t"
  shows "Contains a t \<or> Contains b t"
proof -
  obtain u v where uv: "a @ c # b = u @ t @ v"
    using assms(1) by (auto simp: Contains_iff)
  then consider w where "a = u @ w" "w @ c # b = t @ v" | w where "a @ w = u" "c # b = w @ t @ v"
    by (auto simp: append_eq_append_conv2)
  then show ?thesis
  proof cases
    case 1
    from 1(2) consider z where "w = t @ z" | z where "w @ z = t" "c # b = z @ v"
      by (auto simp: append_eq_append_conv2)
    then show ?thesis
    proof cases
      case 1
      with \<open>a = u @ w\<close> have "a = u @ t @ z" by simp
      then show ?thesis unfolding Contains_iff by blast
    next
      case 2
      show ?thesis
      proof (cases z)
        case Nil
        with 2 \<open>a = u @ w\<close> have "a = u @ t @ []" by simp
        then show ?thesis unfolding Contains_iff by blast
      next
        case (Cons z1 zs)
        with 2 have "c \<in> set t" by auto
        with assms(2) show ?thesis by simp
      qed
    qed
  next
    case 2
    show ?thesis
    proof (cases w)
      case Nil
      with 2 have "c # b = t @ v" by simp
      with assms(2) have "t = []" by (cases t) auto
      then show ?thesis by (simp add: Contains_Nil)
    next
      case (Cons w1 ws)
      with 2 have "b = ws @ t @ v" by simp
      then show ?thesis unfolding Contains_iff by blast
    qed
  qed
qed

lemma Contains_dropWhile: "Contains s (dropWhile P s)"
proof -
  have "s = takeWhile P s @ dropWhile P s @ []" by simp
  then show ?thesis unfolding Contains_iff by blast
qed

lemma Contains_rev_dropWhile_rev: "Contains y (rev (dropWhile P (rev y)))"
proof -
  have "rev (dropWhile P (rev y)) @ rev (takeWhile P (rev y))
          = rev (takeWhile P (rev y) @ dropWhile P (rev y))" by (simp only: rev_append)
  also have "\<dots> = rev (rev y)" by (simp only: takeWhile_dropWhile_id)
  also have "\<dots> = y" by simp
  finally have "y = [] @ rev (dropWhile P (rev y)) @ rev (takeWhile P (rev y))" by (metis append_Nil)
  then show ?thesis unfolding Contains_iff by blast
qed

lemma Contains_TrimSpace: "Contains s (TrimSpace U s)"
  unfolding TrimSpace_def
  using Contains_trans[OF Contains_dropWhile Contains_rev_dropWhile_rev] .

lemma splitRune_sub: "x \<in> set (splitRune sep cur s) \<Longrightarrow> Contains (rev cur @ s) x"
proof (induction s arbitrary: cur)
  case Nil
  then show ?case by (simp add: Contains_refl)
next
  case (Cons c cs)
  show ?case
  proof (cases "c = sep")
    case True
    with Cons.prems consider "x = rev cur" | "x \<in> set (splitRune sep [] cs)" by auto
    then show ?thesis
    proof cases
      case 1
      then show ?thesis by (intro Contains_appendI1) (simp add: Contains_refl)
    next
      case 2
      then have "Contains cs x" using Cons.IH[of "[]"] by simp
      then have "Contains ((rev cur @ [c]) @ cs) x" by (rule Contains_appendI2)
      then show ?thesis by simp
    qed
  next
    case False
    with Cons.prems have "x \<in> set (splitRune sep (c # cur) cs)" by simp
    then show ?thesis using Cons.IH[of "c # cur"] by simp
  qed
qed

lemma Contains_TrimPrefix_bar: "Contains s (TrimPrefix_bar s)"
proof (cases s)
  case Nil
  then show ?thesis by (simp add: TrimPrefix_bar_def)
next
  case (Cons c cs)
  show ?thesis
  proof (cases "c = 124")
    case True
    have "Contains ([c] @ cs) cs" by (intro Contains_appendI2 Contains_refl)
    moreover have "TrimPrefix_bar s = cs" using Cons True by (simp add: TrimPrefix_bar_def)
    ultimately show ?thesis using Cons by simp
  next
    case False
    then have "TrimPrefix_bar s = s" using Cons by (simp add: TrimPrefix_bar_def)
    then show ?thesis using Contains_refl[of s] by simp
  qed
qed

lemma Contains_TrimSuffix_bar: "Contains s (TrimSuffix_bar s)"
proof (cases "s \<noteq> [] \<and> last s = 124")
  case True
  have "Contains (butlast s @ [last s]) (butlast s)"
    by (intro Contains_appendI1 Contains_refl)
  moreover have "butlast s @ [last s] = s" using True append_butlast_last_id[of s] by blast
  moreover have "TrimSuffix_bar s = butlast s" using True by (simp add: TrimSuffix_bar_def)
  ultimately show ?thesis by simp
next
  case False
  then have "TrimSuffix_bar s = s" by (auto simp: TrimSuffix_bar_def)
  then show ?thesis using Contains_refl[of s] by simp
qed

text \<open>A word without the separator survives joining: it lies in one of the joined pieces.\<close>

lemma Contains_Join:
  assumes "Contains (map f (Join xs [sep])) t" "t \<noteq> []" "f sep \<notin> set t"
  shows "\<exists>x\<in>set xs. Contains (map f x) t"
  using assms
proof (induction xs "[sep]" rule: Join.induct)
  case 1
  then show ?case by simp
next
  case (2 x)
  then show ?case by simp
next
  case (3 x y ys)
  from 3(2) have "Contains (map f x @ f sep # map f (Join (y # ys) [sep])) t" by simp
  then consider "Contains (map f x) t" | "Contains (map f (Join (y # ys) [sep])) t"
    using Contains_append_mid[of "map f x" "f sep" _ t] 3(4) by blast
  then show ?case
  proof cases
    case 1
    then show ?thesis by simp
  next
    case 2
    then show ?thesis using 3 by auto
  qed
qed

lemma tableRowCells_sub:
  assumes "Contains (map f (tableRowCells U l)) t" "t \<noteq> []" "f 32 \<notin> set t"
  shows "Contains (map f l) t"
proof -
  let ?row = "TrimSuffix_bar (TrimPrefix_bar (TrimSpace U l))"
  have "Contains (map f (Join (map (TrimSpace U) (splitRune 124 [] ?row)) [32])) t"
    using assms(1) by (simp add: tableRowCells_def Let_def str_def)
  then obtain x where x: "x \<in> set (map (TrimSpace U) (splitRune 124 [] ?row))" "Contains (map f x) t"
    using Contains_Join[of f _ 32 t] assms(2,3) by blast
  then obtain c where c: "c \<in> set (splitRune 124 [] ?row)" "x = TrimSpace U c" by auto
  have "Contains ?row c" using splitRune_sub[OF c(1)] by simp
  then have "Contains l c"
    using Contains_trans Contains_TrimSuffix_bar Contains_TrimPrefix_bar Contains_TrimSpace by meson
  then have "Contains l x" using c(2) Contains_trans Contains_TrimSpace by meson
  then show ?thesis using x(2) Contains_map Contains_trans by meson
qed

lemma stripLines_sub:
  assumes "x \<in> set (stripLines U b ls)" "Contains (map f x) t" "t \<noteq> []" "f 32 \<notin> set t"
  shows "\<exists>l\<in>set ls. Contains (map f l) t"
  using assms(1)
proof (induction U b ls rule: stripLines.induct)
  case (1 U inBody)
  then show ?case by simp
next
  case (2 U inBody l rest)
  have trim: "Contains (map f l) t" if "x = TrimSpace U l"
    using that assms(2) Contains_map[OF Contains_TrimSpace, of f l U] Contains_trans by metis
  have cells: "Contains (map f l) t" if "x = tableRowCells U l"
    using that assms(2,3,4) tableRowCells_sub by blast
  show ?case
  proof (cases "inBody \<and> MatchString mdTableRow (TrimSpace U l)")
    case True
    with 2(4) consider "x = tableRowCells U l" | "x \<in> set (stripLines U True rest)"
      by (auto simp: Let_def split: if_splits)
    then show ?thesis
    proof cases
      case 1
      then show ?thesis using cells by simp
    next
      case 2
      then show ?thesis using "2.IH"(1)[OF refl True refl] by auto
    qed
  next
    case False
    show ?thesis
    proof (cases rest)
      case Nil
      with False 2(4) have "x = TrimSpace U l" by (auto simp: Let_def split: if_splits)
      then show ?thesis using trim by simp
    next
      case (Cons n rest')
      show ?thesis
      proof (cases "MatchString mdTableRow (TrimSpace U l) \<and> MatchString mdSepRow (TrimSpace U n)")
        case True
        with False Cons 2(4) have "x \<in> set (stripLines U True rest')"
          by (auto simp: Let_def)
        then have "\<exists>l\<in>set rest'. Contains (map f l) t"
          using "2.IH"(2)[OF refl False Cons True] by simp
        then show ?thesis using Cons by auto
      next
        case F2: False
        with False Cons 2(4) consider "x = TrimSpace U l" | "x \<in> set (stripLines U False rest)"
          by (auto simp: Let_def split: if_splits)
        then show ?thesis
        proof cases
          case 1
          then show ?thesis using trim by simp
        next
          case 2
          then have "\<exists>l\<in>set rest. Contains (map f l) t"
            using "2.IH"(3)[OF refl False Cons F2] by simp
          then show ?thesis by auto
        qed
      qed
    qed
  qed
qed

lemma stripMarkdownTablesToLines_sub:
  assumes "Contains (map f (stripMarkdownTablesToLines U s)) t" "t \<noteq> []" "f 32 \<notin> set t" "f 10 \<notin> set t"
  shows "Contains (map f s) t"
proof (cases "s = []")
  case True
  then show ?thesis using assms(1) by (simp add: stripMarkdownTablesToLines_def)
next
  case False
  then have "Contains (map f (Join (stripLines U False (splitRune 10 [] s)) [10])) t"
    using assms(1) by (simp add: stripMarkdownTablesToLines_def)
  then obtain x where x: "x \<in> set (stripLines U False (splitRune 10 [] s))" "Contains (map f x) t"
    using Contains_Join[of f _ 10 t] assms(2,4) by blast
  then obtain l where l: "l \<in> set (splitRune 10 [] s)" "Contains (map f l) t"
    using stripLines_sub[OF x(1) x(2) assms(2,3)] by blast
  have "Contains s l" using splitRune_sub[OF l(1)] by simp
  then show ?thesis using l(2) Contains_map Contains_trans by meson
qed

lemma cleanSnippet_sub:
  assumes "Contains (ToLower U (cleanSnippet U r)) t" "t \<noteq> []" "32 \<notin> set t" "10 \<notin> set t"
  shows "Contains (ToLower U (Snippet r)) t"
proof -
  have f: "toLower_rune U 32 = 32" "toLower_rune U 10 = 10" by (simp_all add: toLower_rune_def)
  have "Contains (map (toLower_rune U) (TrimSpace U (Snippet r))) t"
    using assms stripMarkdownTablesToLines_sub[of "toLower_rune U" U "TrimSpace U (Snippet r)" t] f
    by (simp add: cleanSnippet_def ToLower_def)
  then show ?thesis
    unfolding ToLower_def using Contains_map[OF Contains_TrimSpace] Contains_trans by meson
qed

subsection \<open>Gates and survivors\<close>

lemma overlapRelevance_Nil: "overlapRelevance U [] q = 0"
proof -
  have b: "fold (\<lambda>e b. if e = [] then b else if Contains [] e then b + 6 / 100 else b) es (x :: rat) = x" for es x
    by (induction es arbitrary: x) auto
  show ?thesis
    by (simp add: overlapRelevance_def ToLower_def alnumRE_FindAllString_def Let_def b)
qed

lemma countStrongHits_Nil: "countStrongHits U strong [] = []"
  by (simp add: countStrongHits_def ToLower_def Let_def)

lemma strongGate_Nil: "\<not> strongGate req 0 0 []"
  by (simp add: strongGate_def strictFloor_def lenientFloor_def RuneCountInString_def)

lemma candidate_None_iff:
  "candidate U (extractQueryTerms U prompt) (contentTerms U prompt)
       (strongEntities U prompt (extractQueryTerms U prompt)) mx r = None
   \<longleftrightarrow> \<not> passesGates U prompt r"
proof (cases "cleanSnippet U r = []")
  case True
  then show ?thesis
    using strongGate_Nil
    by (simp add: candidate_def passesGates_def Let_def overlapRelevance_Nil countStrongHits_Nil)
next
  case False
  then show ?thesis
    by (auto simp: candidate_def passesGates_def Let_def)
qed

lemma map_filter_Nil_iff: "List.map_filter f xs = [] \<longleftrightarrow> (\<forall>x\<in>set xs. f x = None)"
  by (induction xs) (auto simp: List.map_filter_simps split: option.splits)

lemma survivors_Nil_iff:
  "survivors U prompt results = [] \<longleftrightarrow> (\<forall>r\<in>set results. \<not> passesGates U prompt r)"
  by (simp add: survivors_def Let_def map_filter_Nil_iff candidate_None_iff)

lemma retrieve_Some_cases:
  "retrieve U srt (Some idx) thr prompt =
     (if fetch U idx prompt = [] then (decline, None)
      else if survivors U prompt (fetch U idx prompt) = [] then (decline, None)
      else if indexScore (srt (survivors U prompt (fetch U idx prompt)) ! 0) < threshold thr then (decline, None)
      else (collapseWhitespaceLines U
              (if mergeSecond (srt (survivors U prompt (fetch U idx prompt)))
               then cand_text (srt (survivors U prompt (fetch U idx prompt)) ! 0) @ [10] @
                    cand_text (srt (survivors U prompt (fetch U idx prompt)) ! 1)
               else cand_text (srt (survivors U prompt (fetch U idx prompt)) ! 0)),
            Some (indexScore (srt (survivors U prompt (fetch U idx prompt)) ! 0))))"
  by (simp add: retrieve_def Let_def)





lemma strongEntities_distinct: "distinct (strongEntities U prompt q)"
  by (simp add: strongEntities_def Let_def)

lemma countStrongHits_distinct: "distinct strong \<Longrightarrow> distinct (countStrongHits U strong s)"
  by (simp add: countStrongHits_def Let_def)



subsection \<open>Evaluation on the inputs of the package's tests\<close>

lemmas string_defs = str_def isUpper_def isLetter_def isNumber_rune_def isDigit_def isSpace_def toLower_rune_def
  reSpace_def ToLower_def TrimSpace_def utf8_len_def byteLen_def RuneCountInString_def Fields_def
  alnum_def alnumRE_FindAllString_def qwordRE_FindAllString_def wordRE_FindAllString_def

lemmas eval_defs = survivors_def candidate_def passesGates_def extractQueryTerms_def strongEntities_def
  contentTerms_def cleanSnippet_def contentGate_def strongGate_def requiredHits_def countStrongHits_def
  overlapRelevance_def containsAny_def stripMarkdownTablesToLines_def isNumber_def isCapitalized_def
  EqualFold_Gen_def addPhrase_def strictFloor_def lenientFloor_def qStop_def genericContentDrop_def
  MatchString_def mdTableRow_def mdSepRow_def mdSepCell_def seqs_def chr_def opt_def plus_def
  maxScore_def List.map_filter_simps ascii_def Let_def

lemma fetch_fakeIndex:
  "rs \<noteq> [] \<Longrightarrow> length rs \<le> 10 \<Longrightarrow> fetch U (fakeIndex [(p, rs)]) p = rs"
  by (simp add: fetch_def fakeIndex_def Let_def)




lemma ex_clean_top_picks:
  "cleanSnippet ascii \<lparr> Snippet = str ''top picks today'', Score = 7 / 10 \<rparr> = str ''top picks today''"
  by (simp add: eval_defs string_defs)

lemma ex_top_picks_lower:
  "\<not> Contains (ToLower ascii (str ''top picks today'')) (str ''nashville'') \<and>
   \<not> Contains (ToLower ascii (str ''top picks today'')) (str ''apps'')"
  by (simp add: string_defs ascii_def)

lemma ex_two_strong:
  "strongEntities ascii (str ''Gen Z Nashville'') (extractQueryTerms ascii (str ''Gen Z Nashville''))
     = [str ''gen z'', str ''gen z nashville'', str ''z nashville'', str ''nashville'']"
  by (simp add: eval_defs string_defs)

lemma ex_two_strong_hits:
  "countStrongHits ascii [str ''gen z'', str ''gen z nashville'', str ''z nashville'', str ''nashville'']
     (cleanSnippet ascii \<lparr> Snippet = str ''Gen Z trends continue nationwide.'', Score = 9 / 10 \<rparr>)
     = [str ''gen z'']"
  by (simp add: eval_defs string_defs)



subsection \<open>Accepting and declining\<close>











text \<open>
  Claim C7. When the query has at least two strong entities, \<open>requiredHits\<close> is 2, and a result
  whose snippet matches fewer than two of them fails the gates and gives no candidate, whatever
  its score and its overlap; when this holds of every fetched result, \<open>retrieve\<close> declines with a
  nil score.
\<close>

theorem two_strong_entities_required:
  "card (set (strongEntities U prompt (extractQueryTerms U prompt))) \<ge> 2 \<longrightarrow>
     requiredHits (strongEntities U prompt (extractQueryTerms U prompt)) = 2 \<and>
     (card (set (countStrongHits U (strongEntities U prompt (extractQueryTerms U prompt)) (cleanSnippet U r))) < 2 \<longrightarrow>
        \<not> passesGates U prompt r \<and>
        candidate U (extractQueryTerms U prompt) (contentTerms U prompt)
          (strongEntities U prompt (extractQueryTerms U prompt)) mx r = None) \<and>
     ((\<forall>r\<in>set (fetch U idx prompt).
          card (set (countStrongHits U (strongEntities U prompt (extractQueryTerms U prompt)) (cleanSnippet U r))) < 2) \<longrightarrow>
        retrieve U srt (Some idx) thr prompt = (decline, None))"
proof (intro impI conjI)
  let ?q = "extractQueryTerms U prompt"
  let ?strong = "strongEntities U prompt ?q"
  assume c: "card (set ?strong) \<ge> 2"
  have len: "length ?strong \<ge> 2"
    using c strongEntities_distinct[of U prompt ?q] by (simp add: distinct_card)
  then show req: "requiredHits ?strong = 2"
    by (simp add: requiredHits_def Let_def)
  have gate: "\<not> passesGates U prompt r'"
    if "card (set (countStrongHits U ?strong (cleanSnippet U r'))) < 2" for r'
  proof -
    have "length (countStrongHits U ?strong (cleanSnippet U r')) < 2"
      using that countStrongHits_distinct[OF strongEntities_distinct, of U U prompt ?q "cleanSnippet U r'"]
      by (simp add: distinct_card)
    then show ?thesis
      by (simp add: passesGates_def Let_def req strongGate_def)
  qed
  {
    assume "card (set (countStrongHits U ?strong (cleanSnippet U r))) < 2"
    then show "\<not> passesGates U prompt r" by (rule gate)
    then show "candidate U ?q (contentTerms U prompt) ?strong mx r = None"
      using candidate_None_iff[of U prompt mx r] by simp
  }
  {
    assume "\<forall>r\<in>set (fetch U idx prompt). card (set (countStrongHits U ?strong (cleanSnippet U r))) < 2"
    then have "survivors U prompt (fetch U idx prompt) = []"
      using gate by (simp add: survivors_Nil_iff)
    then show "retrieve U srt (Some idx) thr prompt = (decline, None)"
      unfolding retrieve_Some_cases by simp
  }
qed

theorem two_strong_entities_required_witness:
  "card (set (strongEntities ascii (str ''Gen Z Nashville'') (extractQueryTerms ascii (str ''Gen Z Nashville'')))) = 4 \<and>
   card (set (countStrongHits ascii
          (strongEntities ascii (str ''Gen Z Nashville'') (extractQueryTerms ascii (str ''Gen Z Nashville'')))
          (cleanSnippet ascii \<lparr> Snippet = str ''Gen Z trends continue nationwide.'', Score = 9 / 10 \<rparr>))) = 1 \<and>
   retrieve ascii insertionSortCombined
     (Some (fakeIndex [(str ''Gen Z Nashville'',
        [\<lparr> Snippet = str ''Gen Z trends continue nationwide.'', Score = 9 / 10 \<rparr>])]))
     0 (str ''Gen Z Nashville'') = (decline, None)"
proof -
  let ?p = "str ''Gen Z Nashville''"
  let ?r = "\<lparr> Snippet = str ''Gen Z trends continue nationwide.'', Score = 9 / 10 \<rparr>"
  let ?idx = "fakeIndex [(?p, [?r])]"
  let ?strong = "strongEntities ascii ?p (extractQueryTerms ascii ?p)"
  have f: "fetch ascii ?idx ?p = [?r]" by (simp add: fetch_fakeIndex)
  have c4: "card (set ?strong) = 4"
    unfolding ex_two_strong by (simp add: str_def)
  then have c: "card (set ?strong) \<ge> 2" by simp
  have h1: "card (set (countStrongHits ascii ?strong (cleanSnippet ascii ?r))) = 1"
    unfolding ex_two_strong ex_two_strong_hits by simp
  have h: "\<forall>r\<in>set (fetch ascii ?idx ?p). card (set (countStrongHits ascii ?strong (cleanSnippet ascii r))) < 2"
    unfolding f using h1 by simp
  note T = two_strong_entities_required[of ascii ?p ?r 1 ?idx insertionSortCombined 0, THEN mp, OF c]
  have "retrieve ascii insertionSortCombined (Some ?idx) 0 ?p = (decline, None)"
    using T[THEN conjunct2, THEN conjunct2] h by (rule mp)
  with c4 h1 show ?thesis by (intro conjI)
qed

subsection \<open>The query Nashville apps\<close>

lemma q_nashville_apps:
  "extractQueryTerms U (str ''Nashville apps'') =
     \<lparr> allTokens = [str ''nashville'', str ''apps''], entities = [str ''nashville''],
       entitySlice = [str ''nashville''] \<rparr>"
  by (simp add: extractQueryTerms_def string_defs qStop_def isNumber_def isCapitalized_def Let_def)

lemma content_nashville_apps: "contentTerms U (str ''Nashville apps'') = []"
  by (simp add: contentTerms_def string_defs qStop_def genericContentDrop_def isCapitalized_def Let_def)

lemma strong_nashville_apps:
  "strongEntities U (str ''Nashville apps'') (extractQueryTerms U (str ''Nashville apps'')) = [str ''nashville'']"
  unfolding q_nashville_apps
  by (simp add: strongEntities_def string_defs isNumber_def isCapitalized_def EqualFold_Gen_def addPhrase_def Let_def)

lemma nashville_apps_gate:
  assumes "\<not> Contains (ToLower U (cleanSnippet U r)) (str ''nashville'')"
    and "\<not> Contains (ToLower U (cleanSnippet U r)) (str ''apps'')"
  shows "\<not> passesGates U (str ''Nashville apps'') r"
proof -
  let ?clean = "cleanSnippet U r"
  let ?low = "ToLower U ?clean"
  let ?q = "extractQueryTerms U (str ''Nashville apps'')"
  have n1: "str ''nashville'' \<notin> set (alnumRE_FindAllString U ?low)"
    and n2: "str ''apps'' \<notin> set (alnumRE_FindAllString U ?low)"
    using assms alnumRE_token_Contains by blast+
  have ov: "overlapRelevance U ?clean ?q = 0"
    unfolding q_nashville_apps using n1 n2 assms(1)
    by (simp add: overlapRelevance_def Let_def)
  have hits: "countStrongHits U [str ''nashville''] ?clean = []"
    using assms(1) by (simp add: countStrongHits_def Let_def)
  show ?thesis
    by (simp add: passesGates_def Let_def strong_nashville_apps content_nashville_apps hits ov
        requiredHits_def strongGate_def strictFloor_def)
qed

lemma decline_says_cant_answer: "Contains decline (str ''can'' @ [8217] @ str ''t answer'')"
  by (simp add: decline_def str_def)


text \<open>
  Claim C4, as amended. For the query "Nashville apps" and every index whose results have
  snippets that contain neither "Nashville" nor "apps", compared without regard to case (in
  particular an index whose only document is such), \<open>retrieve\<close> declines: the score is nil and
  the reply is the decline message, which contains "can't answer" written with the right single
  quotation mark U+2019 (not with the ASCII apostrophe).
\<close>

theorem nashville_apps_declines:
  "(\<forall>r\<in>set (fetch U idx (str ''Nashville apps'')).
       \<not> Contains (ToLower U (Snippet r)) (str ''nashville'') \<and>
       \<not> Contains (ToLower U (Snippet r)) (str ''apps''))
   \<longrightarrow> retrieve U srt (Some idx) thr (str ''Nashville apps'') = (decline, None) \<and>
       Contains decline (str ''can'' @ [8217] @ str ''t answer'')"
proof
  assume h: "\<forall>r\<in>set (fetch U idx (str ''Nashville apps'')).
       \<not> Contains (ToLower U (Snippet r)) (str ''nashville'') \<and>
       \<not> Contains (ToLower U (Snippet r)) (str ''apps'')"
  have w: "str ''nashville'' \<noteq> []" "32 \<notin> set (str ''nashville'')" "10 \<notin> set (str ''nashville'')"
    "str ''apps'' \<noteq> []" "32 \<notin> set (str ''apps'')" "10 \<notin> set (str ''apps'')"
    by (simp_all add: str_def)
  have "\<not> passesGates U (str ''Nashville apps'') r" if "r \<in> set (fetch U idx (str ''Nashville apps''))" for r
  proof (rule nashville_apps_gate)
    show "\<not> Contains (ToLower U (cleanSnippet U r)) (str ''nashville'')"
      using h that cleanSnippet_sub[OF _ w(1,2,3), of U r] by blast
    show "\<not> Contains (ToLower U (cleanSnippet U r)) (str ''apps'')"
      using h that cleanSnippet_sub[OF _ w(4,5,6), of U r] by blast
  qed
  then have "survivors U (str ''Nashville apps'') (fetch U idx (str ''Nashville apps'')) = []"
    by (simp add: survivors_Nil_iff)
  then have "retrieve U srt (Some idx) thr (str ''Nashville apps'') = (decline, None)"
    unfolding retrieve_Some_cases by simp
  then show "retrieve U srt (Some idx) thr (str ''Nashville apps'') = (decline, None) \<and>
       Contains decline (str ''can'' @ [8217] @ str ''t answer'')"
    using decline_says_cant_answer by simp
qed

theorem nashville_apps_declines_witness:
  "retrieve ascii insertionSortCombined
     (Some (fakeIndex [(str ''Nashville apps'', [\<lparr> Snippet = str ''top picks today'', Score = 7 / 10 \<rparr>])]))
     (1 / 10) (str ''Nashville apps'') = (decline, None) \<and>
   Contains decline (str ''can'' @ [8217] @ str ''t answer'')"
proof -
  let ?p = "str ''Nashville apps''"
  let ?r = "\<lparr> Snippet = str ''top picks today'', Score = 7 / 10 \<rparr>"
  let ?idx = "fakeIndex [(?p, [?r])]"
  have f: "fetch ascii ?idx ?p = [?r]" by (simp add: fetch_fakeIndex)
  have h: "\<forall>r\<in>set (fetch ascii ?idx ?p).
       \<not> Contains (ToLower ascii (Snippet r)) (str ''nashville'') \<and>
       \<not> Contains (ToLower ascii (Snippet r)) (str ''apps'')"
    unfolding f using ex_top_picks_lower by simp
  show ?thesis
    using nashville_apps_declines[of ascii ?idx insertionSortCombined "1 / 10"] h by (rule mp)
qed

text \<open>
  The comparison with the snippet is made on the lower-cased snippet. Read with regard to case,
  the hypothesis would not be enough: the snippet "nashville nights" contains neither "Nashville"
  nor "apps", and it is answered with its score.
\<close>

lemma ex_lowercase_survivors:
  "survivors ascii (str ''Nashville apps'') [\<lparr> Snippet = str ''nashville nights'', Score = 7 / 10 \<rparr>]
   = [\<lparr> cand_text = str ''nashville nights'', indexScore = 7 / 10, overlapRel = 59 / 150,
        combined = 209 / 300, strongEntHit = [str ''nashville''] \<rparr>]"
  by (simp add: eval_defs string_defs)

lemma nashville_lowercase_is_answered:
  "\<not> Contains (str ''nashville nights'') (str ''Nashville'') \<and>
   \<not> Contains (str ''nashville nights'') (str ''apps'') \<and>
   snd (retrieve ascii insertionSortCombined
     (Some (fakeIndex [(str ''Nashville apps'', [\<lparr> Snippet = str ''nashville nights'', Score = 7 / 10 \<rparr>])]))
     (1 / 10) (str ''Nashville apps'')) = Some (7 / 10)"
proof -
  let ?p = "str ''Nashville apps''"
  let ?r = "\<lparr> Snippet = str ''nashville nights'', Score = 7 / 10 \<rparr>"
  have f: "fetch ascii (fakeIndex [(?p, [?r])]) ?p = [?r]" by (simp add: fetch_fakeIndex)
  have "snd (retrieve ascii insertionSortCombined (Some (fakeIndex [(?p, [?r])])) (1 / 10) ?p) = Some (7 / 10)"
    unfolding retrieve_Some_cases f ex_lowercase_survivors
    by (simp add: insertionSortCombined_def sortSliceStable_def threshold_def)
  moreover have "\<not> Contains (str ''nashville nights'') (str ''Nashville'')"
    and "\<not> Contains (str ''nashville nights'') (str ''apps'')"
    by (simp_all add: str_def)
  ultimately show ?thesis by simp
qed

text \<open>
  Claim C4 as stated fails on the spelling of the message: for the single snippet
  "top picks today", which contains neither "Nashville" nor "apps", \<open>retrieve\<close> declines with a
  nil score, but its reply does not contain "can't answer" written with the ASCII apostrophe.
\<close>

theorem nashville_apps_reply_counterexample:
  "\<not> Contains (str ''top picks today'') (str ''Nashville'') \<and>
   \<not> Contains (str ''top picks today'') (str ''apps'') \<and>
   snd (retrieve ascii insertionSortCombined
     (Some (fakeIndex [(str ''Nashville apps'', [\<lparr> Snippet = str ''top picks today'', Score = 7 / 10 \<rparr>])]))
     (1 / 10) (str ''Nashville apps'')) = None \<and>
   \<not> Contains (fst (retrieve ascii insertionSortCombined
     (Some (fakeIndex [(str ''Nashville apps'', [\<lparr> Snippet = str ''top picks today'', Score = 7 / 10 \<rparr>])]))
     (1 / 10) (str ''Nashville apps''))) (str ''can'' @ [39] @ str ''t answer'')"
proof -
  let ?p = "str ''Nashville apps''"
  let ?r = "\<lparr> Snippet = str ''top picks today'', Score = 7 / 10 \<rparr>"
  let ?idx = "fakeIndex [(?p, [?r])]"
  have f: "fetch ascii ?idx ?p = [?r]" by (simp add: fetch_fakeIndex)
  have "\<not> passesGates ascii ?p ?r"
    using ex_top_picks_lower by (intro nashville_apps_gate) (simp_all add: ex_clean_top_picks)
  then have "survivors ascii ?p [?r] = []"
    by (simp add: survivors_Nil_iff)
  then have r: "retrieve ascii insertionSortCombined (Some ?idx) (1 / 10) ?p = (decline, None)"
    unfolding retrieve_Some_cases f by simp
  have a: "\<not> Contains (str ''top picks today'') (str ''Nashville'')"
    and b: "\<not> Contains (str ''top picks today'') (str ''apps'')"
    by (simp_all add: str_def)
  have c: "\<not> Contains decline (str ''can'' @ [39] @ str ''t answer'')"
    by (simp add: decline_def str_def)
  show ?thesis
    unfolding r using a b c by simp
qed

end
